theory Spec2Isabelle
  imports Main "HOL-Library.Sublist"
begin

section \<open>JavaScript values used by the plugin\<close>

text \<open>
  The plugin (\<^verbatim>\<open>src/index.ts\<close>) handles line numbers as JavaScript Numbers, that is
  IEEE doubles.  Every Number that occurs here is an integer, an infinity or NaN, so a
  Number is modelled by the integer it denotes, and each operation rounds its exact
  result to the nearest double (ties to even), as the language does.
\<close>

datatype jsnum = NaN | PosInf | NegInf | Fin int

text \<open>
  The ways in which a call can fail to return.  \<open>RangeError\<close> and \<open>RenderFailure\<close> are
  exceptions, which a handler catches.  \<open>Fatal\<close> is the end of the process: an engine that
  cannot get the memory it needs gives up with a fatal error; no handler sees it and
  nothing of the program runs after it.
\<close>

datatype js_error = RangeError | RenderFailure | Fatal

fun bit_length :: "int \<Rightarrow> nat" where
  "bit_length n = (if n \<le> 0 then 0 else Suc (bit_length (n div 2)))"

declare bit_length.simps [simp del]

text \<open>The double nearest to a non-negative integer.\<close>

definition round_to_double :: "int \<Rightarrow> int" where
  "round_to_double n =
     (let e = bit_length n - 53; q = n div 2 ^ e; r = n mod 2 ^ e
      in if 2 ^ e < 2 * r \<or> (2 ^ e = 2 * r \<and> odd q) then (q + 1) * 2 ^ e else q * 2 ^ e)"

text \<open>The Number that an exact integer result becomes; \<open>2^1024\<close> and above overflow.\<close>

definition to_number :: "int \<Rightarrow> jsnum" where
  "to_number z =
     (let m = round_to_double \<bar>z\<bar>
      in if 2 ^ 1024 \<le> m then (if z < 0 then NegInf else PosInf)
         else Fin (if z < 0 then - m else m))"

fun js_neg :: "jsnum \<Rightarrow> jsnum" where
  "js_neg NaN = NaN"
| "js_neg PosInf = NegInf"
| "js_neg NegInf = PosInf"
| "js_neg (Fin a) = Fin (- a)"

fun js_add :: "jsnum \<Rightarrow> jsnum \<Rightarrow> jsnum" where
  "js_add (Fin a) (Fin b) = to_number (a + b)"
| "js_add NaN _ = NaN"
| "js_add _ NaN = NaN"
| "js_add PosInf NegInf = NaN"
| "js_add NegInf PosInf = NaN"
| "js_add PosInf _ = PosInf"
| "js_add _ PosInf = PosInf"
| "js_add NegInf _ = NegInf"
| "js_add _ NegInf = NegInf"

definition js_sub :: "jsnum \<Rightarrow> jsnum \<Rightarrow> jsnum" where
  "js_sub a b = js_add a (js_neg b)"

text \<open>The comparison \<^verbatim>\<open>a < b\<close> of two Numbers; it is false as soon as one is NaN.\<close>

fun js_less :: "jsnum \<Rightarrow> jsnum \<Rightarrow> bool" where
  "js_less (Fin a) (Fin b) = (a < b)"
| "js_less NaN _ = False"
| "js_less _ NaN = False"
| "js_less NegInf NegInf = False"
| "js_less NegInf _ = True"
| "js_less _ NegInf = False"
| "js_less PosInf _ = False"
| "js_less _ PosInf = True"

text \<open>\<^verbatim>\<open>ToLength\<close>: NaN and everything below 1 give 0, the rest is capped at \<open>2^53 - 1\<close>.\<close>

definition to_length :: "jsnum \<Rightarrow> int" where
  "to_length x =
     (case x of NaN \<Rightarrow> 0 | NegInf \<Rightarrow> 0 | PosInf \<Rightarrow> 2 ^ 53 - 1
      | Fin z \<Rightarrow> if z \<le> 0 then 0 else min z (2 ^ 53 - 1))"

text \<open>
  \<^verbatim>\<open>Array.from({ length: len }, (_, i) => start + i)\<close> creates the array with
  \<^verbatim>\<open>new Array(ToLength(len))\<close>, which the language makes throw a RangeError above
  \<open>2^32 - 1\<close>, and then stores the elements one by one.  Whether an array of a length up
  to \<open>2^32 - 1\<close> can be stored depends on the engine and on its memory: the engine builds
  the array, or throws a RangeError (\<^verbatim>\<open>Invalid array length\<close>) when the storage would pass
  a limit of its own, or runs out of memory and ends the process.  An engine is described
  by what it does for each length; an array without elements needs no storage.
\<close>

datatype alloc = Built | Throws | Aborts

type_synonym engine = "int \<Rightarrow> alloc"

definition alloc_outcome :: "engine \<Rightarrow> int \<Rightarrow> js_error option" where
  "alloc_outcome eng n =
     (if 2 ^ 32 - 1 < n then Some RangeError
      else if n = 0 then None
      else (case eng n of Built \<Rightarrow> None | Throws \<Rightarrow> Some RangeError | Aborts \<Rightarrow> Some Fatal))"

definition array_from :: "engine \<Rightarrow> jsnum \<Rightarrow> jsnum \<Rightarrow> js_error + jsnum list" where
  "array_from eng len start =
     (let n = to_length len
      in case alloc_outcome eng n of
           Some e \<Rightarrow> Inl e
         | None \<Rightarrow> Inr (map (\<lambda>i. js_add start (Fin (int i))) [0..<nat n]))"

subsection \<open>Strings\<close>

definition is_digit :: "char \<Rightarrow> bool" where
  "is_digit c = (c \<in> set ''0123456789'')"

definition is_space :: "char \<Rightarrow> bool" where
  "is_space c = (c \<in> set [CHR '' '', CHR 0x09, CHR 0x0A, CHR 0x0B, CHR 0x0C, CHR 0x0D])"

definition digit_val :: "char \<Rightarrow> int" where
  "digit_val c = of_char c - 48"

definition dec_val :: "string \<Rightarrow> int" where
  "dec_val ds = foldl (\<lambda>a c. 10 * a + digit_val c) 0 ds"

definition trim :: "string \<Rightarrow> string" where
  "trim s = rev (dropWhile is_space (rev (dropWhile is_space s)))"

text \<open>
  \<^verbatim>\<open>parseInt(s, 10)\<close>: leading white space and one sign are skipped, the longest run of
  decimal digits is read, and no digit at all gives NaN.
\<close>

definition parseInt :: "string \<Rightarrow> jsnum" where
  "parseInt s =
     (let t = dropWhile is_space s;
          neg = (t \<noteq> [] \<and> hd t = CHR ''-'');
          u = (if t \<noteq> [] \<and> (hd t = CHR ''-'' \<or> hd t = CHR ''+'') then tl t else t);
          ds = takeWhile is_digit u
      in if ds = [] then NaN
         else to_number (if neg then - dec_val ds else dec_val ds))"

text \<open>\<^verbatim>\<open>s.split(c)\<close> for a one-character separator.\<close>

fun split_on :: "char \<Rightarrow> string \<Rightarrow> string list" where
  "split_on c [] = [[]]"
| "split_on c (x # xs) =
     (if x = c then [] # split_on c xs
      else (case split_on c xs of [] \<Rightarrow> [[x]] | y # ys \<Rightarrow> (x # y) # ys))"

text \<open>\<^verbatim>\<open>s.includes(w)\<close>.\<close>

fun js_includes :: "string \<Rightarrow> string \<Rightarrow> bool" where
  "js_includes [] w = (w = [])"
| "js_includes (c # cs) w = (prefix w (c # cs) \<or> js_includes cs w)"

subsection \<open>The regular expressions of the parser\<close>

text \<open>
  All five expressions of \<^verbatim>\<open>parseMetaString\<close> have one shape: a literal opening (one of
  several alternatives), a capture group \<^verbatim>\<open>([class]+)\<close>, and a literal closing that is empty
  or the brace \<^verbatim>\<open>}\<close>.  The closing brace is in none of the classes, so the greedy group can
  only succeed with the longest run of class characters: a shorter run would be followed by
  a class character and not by the closing.  \<open>match_here\<close> is the attempt at one position,
  \<open>search\<close> tries the positions from left to right, as \<^verbatim>\<open>String.prototype.match\<close> does.
\<close>

definition match_here :: "string \<Rightarrow> (char \<Rightarrow> bool) \<Rightarrow> string \<Rightarrow> string \<Rightarrow> string option" where
  "match_here opening cls closing s =
     (if prefix opening s
      then (let r = drop (length opening) s; run = takeWhile cls r
            in if run \<noteq> [] \<and> prefix closing (dropWhile cls r) then Some run else None)
      else None)"

fun match_alts :: "string list \<Rightarrow> (char \<Rightarrow> bool) \<Rightarrow> string \<Rightarrow> string \<Rightarrow> string option" where
  "match_alts [] cls closing s = None"
| "match_alts (a # as) cls closing s =
     (case match_here a cls closing s of Some r \<Rightarrow> Some r
      | None \<Rightarrow> match_alts as cls closing s)"

fun search :: "(string \<Rightarrow> string option) \<Rightarrow> string \<Rightarrow> string option" where
  "search m [] = m []"
| "search m (c # cs) = (case m (c # cs) of Some r \<Rightarrow> Some r | None \<Rightarrow> search m cs)"

definition range_char :: "char \<Rightarrow> bool" where
  "range_char c = (is_digit c \<or> c = CHR '','' \<or> c = CHR ''-'')"

definition list_char :: "char \<Rightarrow> bool" where
  "list_char c = (is_digit c \<or> c = CHR '','')"

text \<open>\<^verbatim>\<open>/\{([0-9,-]+)\}/\<close>\<close>
definition highlightMatch :: "string \<Rightarrow> string option" where
  "highlightMatch meta = search (match_alts [''{''] range_char ''}'') meta"

text \<open>\<^verbatim>\<open>/(?:showLineNumbers|lineNumbers):(\d+)/\<close>\<close>
definition startMatch :: "string \<Rightarrow> string option" where
  "startMatch meta =
     search (match_alts [''showLineNumbers:'', ''lineNumbers:''] is_digit []) meta"

text \<open>\<^verbatim>\<open>/\+([0-9,]+)/\<close>\<close>
definition diffAddMatch :: "string \<Rightarrow> string option" where
  "diffAddMatch meta = search (match_alts [''+''] list_char []) meta"

text \<open>\<^verbatim>\<open>/-([0-9,]+)/\<close>\<close>
definition diffRemoveMatch :: "string \<Rightarrow> string option" where
  "diffRemoveMatch meta = search (match_alts [''-''] list_char []) meta"

text \<open>\<^verbatim>\<open>/focus\{([0-9,-]+)\}/\<close>\<close>
definition focusMatch :: "string \<Rightarrow> string option" where
  "focusMatch meta = search (match_alts [''focus{''] range_char ''}'') meta"

section \<open>The directive parser\<close>

datatype line_numbers = LnFlag bool | LnStart "jsnum option"

record diff_lines =
  added :: "jsnum list option"
  removed :: "jsnum list option"

record directives =
  highlightLines :: "string option"
  lineNumbers :: "line_numbers option"
  diffLines :: "diff_lines option"
  focusLines :: "jsnum list option"

definition no_directives :: directives where
  "no_directives =
     \<lparr>highlightLines = None, lineNumbers = None, diffLines = None, focusLines = None\<rparr>"

text \<open>The numbers of a comma-separated list, as lines 71 and 74 read them.\<close>

definition int_list :: "string \<Rightarrow> jsnum list" where
  "int_list s = map (\<lambda>n. parseInt (trim n)) (split_on CHR '','' s)"

text \<open>
  One part of a focus group (lines 82 to 86).  The destructuring
  \<^verbatim>\<open>[start, end]\<close> takes the first two pieces of the part; a missing piece is
  \<^verbatim>\<open>undefined\<close>, which the arithmetic turns into NaN.  \<open>range_length\<close> is the
  \<^verbatim>\<open>length\<close> handed to \<^verbatim>\<open>Array.from\<close>, after \<^verbatim>\<open>ToLength\<close>.
\<close>

definition range_pieces :: "string \<Rightarrow> jsnum list" where
  "range_pieces part = map (\<lambda>n. parseInt (trim n)) (split_on CHR ''-'' part)"

definition range_start :: "string \<Rightarrow> jsnum" where
  "range_start part = (if 0 < length (range_pieces part) then range_pieces part ! 0 else NaN)"

definition range_end :: "string \<Rightarrow> jsnum" where
  "range_end part = (if 1 < length (range_pieces part) then range_pieces part ! 1 else NaN)"


definition focus_part :: "engine \<Rightarrow> string \<Rightarrow> js_error + jsnum list" where
  "focus_part eng part =
     (if CHR ''-'' \<in> set part
      then array_from eng (js_add (js_sub (range_end part) (range_start part)) (Fin 1))
             (range_start part)
      else Inr [parseInt (trim part)])"

text \<open>\<^verbatim>\<open>flatMap\<close> with a callback that may fail: the first failure ends the loop.\<close>

fun flat_map :: "('a \<Rightarrow> js_error + 'b list) \<Rightarrow> 'a list \<Rightarrow> js_error + 'b list" where
  "flat_map f [] = Inr []"
| "flat_map f (x # xs) =
     (case f x of Inl e \<Rightarrow> Inl e
      | Inr ys \<Rightarrow> (case flat_map f xs of Inl e \<Rightarrow> Inl e | Inr zs \<Rightarrow> Inr (ys @ zs)))"

definition parse_highlight :: "string \<Rightarrow> string option" where
  "parse_highlight meta = highlightMatch meta"

definition parse_line_numbers :: "string \<Rightarrow> line_numbers option" where
  "parse_line_numbers meta =
     (if js_includes meta ''showLineNumbers'' \<or> js_includes meta ''lineNumbers''
      then (case startMatch meta of
              Some ds \<Rightarrow> Some (LnStart (Some (parseInt ds)))
            | None \<Rightarrow> Some (LnFlag True))
      else None)"

definition parse_diff :: "string \<Rightarrow> diff_lines option" where
  "parse_diff meta =
     (if diffAddMatch meta \<noteq> None \<or> diffRemoveMatch meta \<noteq> None
      then Some \<lparr>added = map_option int_list (diffAddMatch meta),
                 removed = map_option int_list (diffRemoveMatch meta)\<rparr>
      else None)"

definition parse_focus :: "engine \<Rightarrow> string \<Rightarrow> js_error + jsnum list option" where
  "parse_focus eng meta =
     (case focusMatch meta of
        None \<Rightarrow> Inr None
      | Some g \<Rightarrow> (case flat_map (focus_part eng) (split_on CHR '','' g) of
                     Inl e \<Rightarrow> Inl e
                   | Inr ls \<Rightarrow> Inr (Some ls)))"

text \<open>
  \<^verbatim>\<open>parseMetaString\<close> (lines 43 to 92), run by the engine \<open>eng\<close>.  \<open>None\<close> is an absent
  meta (\<^verbatim>\<open>null\<close> or \<^verbatim>\<open>undefined\<close>); \<open>Inl\<close> is a failure that leaves the function.
\<close>

definition parseMetaString :: "engine \<Rightarrow> string option \<Rightarrow> js_error + directives" where
  "parseMetaString eng meta =
     (case meta of
        None \<Rightarrow> Inr no_directives
      | Some m \<Rightarrow>
          if m = [] then Inr no_directives
          else (case parse_focus eng m of
                  Inl e \<Rightarrow> Inl e
                | Inr fl \<Rightarrow> Inr \<lparr>highlightLines = parse_highlight m,
                                 lineNumbers = parse_line_numbers m,
                                 diffLines = parse_diff m,
                                 focusLines = fl\<rparr>))"

subsection \<open>Well-formed directive texts\<close>

text \<open>
  The texts that the documentation of the plugin shows for the directives: a number is a
  non-empty run of decimal digits, a selector is a number or two numbers joined by a hyphen,
  and a list separates its entries by single commas.
\<close>

definition digits :: "string \<Rightarrow> bool" where
  "digits s = (s \<noteq> [] \<and> list_all is_digit s)"

definition selector :: "string \<Rightarrow> bool" where
  "selector tok =
     (case split_on CHR ''-'' tok of
        [x] \<Rightarrow> digits x
      | [x, y] \<Rightarrow> digits x \<and> digits y
      | _ \<Rightarrow> False)"

definition selector_list :: "string \<Rightarrow> bool" where
  "selector_list s = list_all selector (split_on CHR '','' s)"

definition number_list :: "string \<Rightarrow> bool" where
  "number_list s = list_all digits (split_on CHR '','' s)"


section \<open>The document tree\<close>

text \<open>
  A code node of the tree carries \<^verbatim>\<open>node.lang\<close>, \<^verbatim>\<open>node.meta\<close> and \<^verbatim>\<open>node.value\<close>;
  \<open>None\<close> is \<^verbatim>\<open>null\<close> or \<^verbatim>\<open>undefined\<close>.  Every other node is an \<^verbatim>\<open>html\<close> node, another
  leaf, or a parent with its list of children.
\<close>

record code =
  node_lang :: "string option"
  node_meta :: "string option"
  node_value :: string

datatype mdast = Code code | Html string | Other string | Parent "mdast list"

text \<open>
  The transform keeps references to parent objects and changes their \<^verbatim>\<open>children\<close> arrays in
  place.  A parent object is identified by the path of child positions that leads to it
  from the root when the transform starts (the root is \<open>[]\<close>); the store maps each parent
  to its children array, in which a child that is itself a parent appears as a reference.
\<close>

type_synonym addr = "nat list"

datatype cell = CCode code | CHtml string | COther string | CRef addr

type_synonym store = "addr \<Rightarrow> cell list"

fun cell_of :: "addr \<Rightarrow> mdast \<Rightarrow> cell" where
  "cell_of a (Code c) = CCode c"
| "cell_of a (Html h) = CHtml h"
| "cell_of a (Other x) = COther x"
| "cell_of a (Parent cs) = CRef a"

fun children_at :: "mdast \<Rightarrow> addr \<Rightarrow> mdast list" where
  "children_at (Parent cs) [] = cs"
| "children_at (Parent cs) (i # r) = (if i < length cs then children_at (cs ! i) r else [])"
| "children_at (Code c) p = []"
| "children_at (Html h) p = []"
| "children_at (Other x) p = []"

definition cells :: "addr \<Rightarrow> mdast list \<Rightarrow> cell list" where
  "cells p cs = map (\<lambda>(i, c). cell_of (p @ [i]) c) (enumerate 0 cs)"

definition store_of :: "mdast \<Rightarrow> store" where
  "store_of t p = cells p (children_at t p)"

subsection \<open>The two traversals\<close>

text \<open>
  \<^verbatim>\<open>visit(tree, 'code', visitor)\<close> of \<^verbatim>\<open>unist-util-visit\<close> walks the tree depth first, in document
  order, and calls the visitor on every code node with the position of the node in its
  parent and the parent.  The first pass (lines 107 to 111) uses the node only; the
  second (lines 137 to 141) records node, index and parent, and skips a node without
  parent, which only the root can be.
\<close>

fun code_nodes :: "mdast \<Rightarrow> code list" where
  "code_nodes (Code c) = [c]"
| "code_nodes (Html h) = []"
| "code_nodes (Other x) = []"
| "code_nodes (Parent cs) = concat (map code_nodes cs)"

record block =
  node :: code
  index :: nat
  parent :: addr

definition under :: "nat \<Rightarrow> block \<Rightarrow> block" where
  "under i b = b\<lparr>parent := i # parent b\<rparr>"

fun visit :: "mdast \<Rightarrow> block list"
  and visit_from :: "nat \<Rightarrow> mdast list \<Rightarrow> block list" where
  "visit (Parent cs) = visit_from 0 cs"
| "visit (Code c) = []"
| "visit (Html h) = []"
| "visit (Other x) = []"
| "visit_from i [] = []"
| "visit_from i (c # cs) =
     (case c of Code cd \<Rightarrow> [\<lparr>node = cd, index = i, parent = []\<rparr>]
      | _ \<Rightarrow> map (under i) (visit c)) @ visit_from (Suc i) cs"

section \<open>The transform\<close>

subsection \<open>Options, collaborators and state\<close>

record rendered =
  html :: string
  css :: string
  script :: string

text \<open>
  The options object handed to \<^verbatim>\<open>codeToHighlightHtml\<close> (lines 158 to 166): the parsed
  directives, spread into an object with \<^verbatim>\<open>lang\<close>, \<^verbatim>\<open>theme\<close> and \<^verbatim>\<open>blockId\<close>.  The label
  \<^verbatim>\<open>hl-n\<close> is represented by the number \<open>n\<close>.
\<close>

record render_options = directives +
  lang :: string
  theme :: string
  blockId :: nat

datatype event =
    HookCalled
  | GrammarImport string
  | GrammarRegister string
  | Warned string
  | RenderCalled string render_options
  | ErrorLogged string

text \<open>
  The options of the plugin.  \<open>loadLanguages\<close> is \<open>None\<close> when no hook is supplied; a
  supplied hook is described by the histories of calls after which it resolves (it
  rejects after the others).
\<close>

record plugin_options =
  theme_option :: "string option"
  loadLanguages :: "(event list \<Rightarrow> bool) option"
  lineNumbers_option :: "line_numbers option"

text \<open>
  The collaborators outside the repository: which identifiers \<^verbatim>\<open>bundledLanguages\<close> has,
  whether the import of a grammar and its registration with \<^verbatim>\<open>loadCustomLanguage\<close> succeed
  (after a given history of calls), the renderer \<^verbatim>\<open>codeToHighlightHtml\<close>, which returns
  three strings or fails, and the engine that runs the plugin.  Every render call of a
  process has its own \<^verbatim>\<open>blockId\<close>, so a function of the arguments describes any renderer.
\<close>

record world =
  bundled :: "string \<Rightarrow> bool"
  import_ok :: "event list \<Rightarrow> string \<Rightarrow> bool"
  register_ok :: "event list \<Rightarrow> string \<Rightarrow> bool"
  codeToHighlightHtml :: "string \<Rightarrow> render_options \<Rightarrow> js_error + rendered"
  runtime :: engine

text \<open>
  The mutable state: \<^verbatim>\<open>languagesLoaded\<close> of the plugin instance (line 96), the module-level
  \<^verbatim>\<open>blockCounter\<close> and \<^verbatim>\<open>loadedLanguages\<close> (lines 16 and 17), and the calls made so far.
\<close>

record state =
  languagesLoaded :: bool
  blockCounter :: nat
  loadedLanguages :: "string set"
  events :: "event list"

subsection \<open>The phases of one call\<close>

text \<open>Lines 100 to 103.  The first component tells whether the call goes on.\<close>

definition run_hook :: "plugin_options \<Rightarrow> state \<Rightarrow> bool \<times> state" where
  "run_hook opts s =
     (case loadLanguages opts of
        None \<Rightarrow> (True, s)
      | Some h \<Rightarrow>
          if languagesLoaded s then (True, s)
          else if h (events s)
            then (True, s\<lparr>languagesLoaded := True, events := events s @ [HookCalled]\<rparr>)
            else (False, s\<lparr>events := events s @ [HookCalled]\<rparr>))"

text \<open>Lines 106 to 111: the set of detected languages, in insertion order.\<close>

definition add_once :: "'a \<Rightarrow> 'a list \<Rightarrow> 'a list" where
  "add_once x xs = (if x \<in> set xs then xs else xs @ [x])"

definition detect :: "string list \<Rightarrow> code \<Rightarrow> string list" where
  "detect ls c =
     (case node_lang c of
        None \<Rightarrow> ls
      | Some l \<Rightarrow> if l \<noteq> [] \<and> l \<noteq> ''text'' then add_once l ls else ls)"

definition detectedLanguages :: "mdast \<Rightarrow> string list" where
  "detectedLanguages t = foldl detect [] (code_nodes t)"

text \<open>Lines 115 to 131, for one language and for all of them.\<close>

definition load_language :: "world \<Rightarrow> state \<Rightarrow> string \<Rightarrow> state" where
  "load_language w s l =
     (if l \<in> loadedLanguages s then s
      else if bundled w l then
        (if import_ok w (events s) l then
           (if register_ok w (events s @ [GrammarImport l]) l
            then s\<lparr>loadedLanguages := insert l (loadedLanguages s),
                   events := events s @ [GrammarImport l, GrammarRegister l]\<rparr>
            else s\<lparr>events := events s @ [GrammarImport l, GrammarRegister l, Warned l]\<rparr>)
         else s\<lparr>events := events s @ [GrammarImport l, Warned l]\<rparr>)
      else s)"

definition load_languages :: "world \<Rightarrow> string list \<Rightarrow> state \<Rightarrow> state" where
  "load_languages w ls s = foldl (load_language w) s ls"

text \<open>
  Lines 149 to 182 and the handler of line 187, for one block: the new counter, the calls
  made, and the three nodes to splice in (\<open>None\<close> when the parser or the renderer failed).
  The handler logs an exception; after a fatal error nothing runs any more.
\<close>

definition lang_or_text :: "code \<Rightarrow> string" where
  "lang_or_text c = (case node_lang c of None \<Rightarrow> ''text'' | Some l \<Rightarrow> if l = [] then ''text'' else l)"

definition theme_or_default :: "plugin_options \<Rightarrow> string" where
  "theme_or_default opts = (case theme_option opts of None \<Rightarrow> ''dark-plus'' | Some t \<Rightarrow> t)"

definition options_for :: "plugin_options \<Rightarrow> nat \<Rightarrow> code \<Rightarrow> directives \<Rightarrow> render_options" where
  "options_for opts n c metaOptions =
     \<lparr>highlightLines = highlightLines metaOptions,
      lineNumbers = (case lineNumbers metaOptions of
                       Some x \<Rightarrow> Some x
                     | None \<Rightarrow> lineNumbers_option opts),
      diffLines = diffLines metaOptions,
      focusLines = focusLines metaOptions,
      lang = lang_or_text c, theme = theme_or_default opts, blockId = n\<rparr>"

definition handler :: "js_error \<Rightarrow> code \<Rightarrow> event list" where
  "handler e c = (if e = Fatal then [] else [ErrorLogged (lang_or_text c)])"

definition attempt ::
  "world \<Rightarrow> plugin_options \<Rightarrow> nat \<Rightarrow> code \<Rightarrow> nat \<times> event list \<times> cell list option" where
  "attempt w opts counter c =
     (case parseMetaString (runtime w) (node_meta c) of
        Inl e \<Rightarrow> (counter, handler e c, None)
      | Inr metaOptions \<Rightarrow>
          (let ro = options_for opts (Suc counter) c metaOptions
           in case codeToHighlightHtml w (node_value c) ro of
                Inl e \<Rightarrow> (Suc counter, RenderCalled (node_value c) ro # handler e c, None)
              | Inr r \<Rightarrow>
                  (Suc counter, [RenderCalled (node_value c) ro],
                   Some [CHtml (html r), CHtml (css r), CHtml (script r)])))"

text \<open>Whether the process ends at the turn of a block.\<close>

definition fatal_at :: "world \<Rightarrow> plugin_options \<Rightarrow> nat \<Rightarrow> code \<Rightarrow> bool" where
  "fatal_at w opts counter c =
     (case parseMetaString (runtime w) (node_meta c) of
        Inl e \<Rightarrow> e = Fatal
      | Inr metaOptions \<Rightarrow>
          (case codeToHighlightHtml w (node_value c) (options_for opts (Suc counter) c metaOptions) of
             Inl e \<Rightarrow> e = Fatal
           | Inr r \<Rightarrow> False))"

text \<open>
  \<^verbatim>\<open>children.splice(i, 1, ...new)\<close>; at a position beyond the end it removes nothing and
  appends.
\<close>

definition splice :: "nat \<Rightarrow> 'a list \<Rightarrow> 'a list \<Rightarrow> 'a list" where
  "splice i new xs = take i xs @ new @ drop (Suc i) xs"

definition process_block ::
  "world \<Rightarrow> plugin_options \<Rightarrow> state \<times> store \<Rightarrow> block \<Rightarrow> state \<times> store" where
  "process_block w opts sst b =
     (case attempt w opts (blockCounter (fst sst)) (node b) of
        (n, evs, repl) \<Rightarrow>
          ((fst sst)\<lparr>blockCounter := n, events := events (fst sst) @ evs\<rparr>,
           (case repl of
              None \<Rightarrow> snd sst
            | Some new \<Rightarrow> (snd sst)(parent b := splice (index b) new (snd sst (parent b))))))"

text \<open>The loop of line 148; it ends with the process when a turn is fatal.\<close>

fun process_blocks ::
  "world \<Rightarrow> plugin_options \<Rightarrow> block list \<Rightarrow> state \<times> store \<Rightarrow> state \<times> store" where
  "process_blocks w opts [] sst = sst"
| "process_blocks w opts (b # bs) sst =
     (if fatal_at w opts (blockCounter (fst sst)) (node b) then process_block w opts sst b
      else process_blocks w opts bs (process_block w opts sst b))"

text \<open>Whether the process is still there after the loop, started with the counter \<open>n\<close>.\<close>

fun blocks_survive :: "world \<Rightarrow> plugin_options \<Rightarrow> nat \<Rightarrow> block list \<Rightarrow> bool" where
  "blocks_survive w opts n [] = True"
| "blocks_survive w opts n (b # bs) =
     (\<not> fatal_at w opts n (node b) \<and>
      blocks_survive w opts (fst (attempt w opts n (node b))) bs)"

text \<open>Lines 143 to 145: a stable sort by descending index.\<close>

definition codeBlocks :: "mdast \<Rightarrow> block list" where
  "codeBlocks t = sort_key (\<lambda>b. - int (index b)) (visit t)"

text \<open>
  One call of the transform (lines 98 to 191): whether the promise resolves, the state
  after the call and the children arrays after the call.  The promise does not resolve
  when the hook rejects and when the process ends in the loop; the state and the arrays
  are then those of that moment.
\<close>

definition transform ::
  "world \<Rightarrow> plugin_options \<Rightarrow> state \<Rightarrow> mdast \<Rightarrow> bool \<times> state \<times> store" where
  "transform w opts s t =
     (case run_hook opts s of
        (False, s1) \<Rightarrow> (False, s1, store_of t)
      | (True, s1) \<Rightarrow>
          (case process_blocks w opts (codeBlocks t)
                  (load_languages w (detectedLanguages t) s1, store_of t) of
             (s3, st) \<Rightarrow>
               (blocks_survive w opts
                  (blockCounter (load_languages w (detectedLanguages t) s1)) (codeBlocks t),
                s3, st)))"

text \<open>Whether the process ends in the call: the call goes on after the hook and does not resolve.\<close>

definition dies :: "world \<Rightarrow> plugin_options \<Rightarrow> state \<Rightarrow> mdast \<Rightarrow> bool" where
  "dies w opts s t = (fst (run_hook opts s) \<and> \<not> fst (transform w opts s t))"

text \<open>
  The same plugin instance called on one tree after the other, as long as the process is
  there.
\<close>

fun transform_all :: "world \<Rightarrow> plugin_options \<Rightarrow> state \<Rightarrow> mdast list \<Rightarrow> state" where
  "transform_all w opts s [] = s"
| "transform_all w opts s (t # ts) =
     (if dies w opts s t then fst (snd (transform w opts s t))
      else transform_all w opts (fst (snd (transform w opts s t))) ts)"

subsection \<open>What each block is replaced by\<close>

text \<open>
  The blocks in the order in which the loop takes them, each with the nodes that the
  loop splices in for it, in a call that the process survives.
\<close>

fun outcomes ::
  "world \<Rightarrow> plugin_options \<Rightarrow> nat \<Rightarrow> block list \<Rightarrow> (block \<times> cell list option) list" where
  "outcomes w opts n [] = []"
| "outcomes w opts n (b # bs) =
     (b, snd (snd (attempt w opts n (node b)))) #
       outcomes w opts (fst (attempt w opts n (node b))) bs"

definition replacements ::
  "world \<Rightarrow> plugin_options \<Rightarrow> state \<Rightarrow> mdast \<Rightarrow> (block \<times> cell list option) list" where
  "replacements w opts s t = outcomes w opts (blockCounter s) (codeBlocks t)"

definition replacement_at ::
  "(block \<times> cell list option) list \<Rightarrow> addr \<Rightarrow> nat \<Rightarrow> cell list option option" where
  "replacement_at rs p i = map_of (map (\<lambda>(b, r). ((parent b, index b), r)) rs) (p, i)"

definition rewritten_from ::
  "(block \<times> cell list option) list \<Rightarrow> addr \<Rightarrow> nat \<Rightarrow> cell list \<Rightarrow> cell list" where
  "rewritten_from rs p n xs =
     concat (map (\<lambda>(i, x). case replacement_at rs p i of Some (Some new) \<Rightarrow> new | _ \<Rightarrow> [x])
               (enumerate n xs))"

text \<open>
  A children array in which every position that has a replacement holds the nodes of the
  replacement instead of its own node, and every other position is unchanged.
\<close>

definition rewritten :: "(block \<times> cell list option) list \<Rightarrow> addr \<Rightarrow> cell list \<Rightarrow> cell list" where
  "rewritten rs p xs = rewritten_from rs p 0 xs"

text \<open>The calls that the loop over the blocks makes.\<close>

fun block_events :: "world \<Rightarrow> plugin_options \<Rightarrow> nat \<Rightarrow> block list \<Rightarrow> event list" where
  "block_events w opts n [] = []"
| "block_events w opts n (b # bs) =
     fst (snd (attempt w opts n (node b))) @
       block_events w opts (fst (attempt w opts n (node b))) bs"

text \<open>The code nodes among the children of one parent, as the second pass records them.\<close>

fun blocks_from :: "addr \<Rightarrow> nat \<Rightarrow> mdast list \<Rightarrow> block list" where
  "blocks_from p i [] = []"
| "blocks_from p i (c # cs) =
     (case c of Code cd \<Rightarrow> [\<lparr>node = cd, index = i, parent = p\<rparr>] | _ \<Rightarrow> []) @
       blocks_from p (Suc i) cs"

text \<open>
  The phase of a call to which an event belongs: the hook, the loading of grammars, the
  loop over the blocks.
\<close>

fun phase :: "event \<Rightarrow> nat" where
  "phase HookCalled = 0"
| "phase (GrammarImport l) = 1"
| "phase (GrammarRegister l) = 1"
| "phase (Warned l) = 1"
| "phase (RenderCalled c ro) = 2"
| "phase (ErrorLogged l) = 2"

text \<open>The calls made since the history \<open>old\<close>.\<close>

definition calls_since :: "event list \<Rightarrow> state \<Rightarrow> event list" where
  "calls_since old s = drop (length old) (events s)"

text \<open>The effect of one turn of the loop on the children arrays.\<close>

definition apply_outcome :: "store \<Rightarrow> block \<times> cell list option \<Rightarrow> store" where
  "apply_outcome st br =
     (case snd br of
        None \<Rightarrow> st
      | Some new \<Rightarrow> st(parent (fst br) := splice (index (fst br)) new (st (parent (fst br)))))"

text \<open>
  The positions of a parent whose code node was converted, and their number below a
  position.
\<close>

definition converted :: "(block \<times> cell list option) list \<Rightarrow> addr \<Rightarrow> nat \<Rightarrow> bool" where
  "converted rs p j = (case replacement_at rs p j of Some (Some new) \<Rightarrow> True | _ \<Rightarrow> False)"

definition converted_before :: "(block \<times> cell list option) list \<Rightarrow> addr \<Rightarrow> nat \<Rightarrow> nat" where
  "converted_before rs p i = length (filter (converted rs p) [0..<i])"

section \<open>An example document\<close>

text \<open>
  An engine with the limits of Node.js on a 64-bit machine: it builds an array of fewer
  than 112813859 elements, throws a RangeError for a longer one, and runs out of memory
  at \<open>2^32 - 1\<close> elements.
\<close>

definition example_engine :: engine where
  "example_engine n =
     (if n < 112813859 then Built else if n < 4294967295 then Throws else Aborts)"

text \<open>
  A renderer that fails for Python, a loader whose import of the Python grammar fails, a
  hook that always resolves, and a document with two JavaScript fences at the top level
  and a Python fence inside a container.
\<close>

definition example_world :: world where
  "example_world =
     \<lparr>bundled = (\<lambda>l. l = ''js'' \<or> l = ''py''),
      import_ok = (\<lambda>h l. l \<noteq> ''py''),
      register_ok = (\<lambda>h l. True),
      codeToHighlightHtml = (\<lambda>c ro.
        if lang ro = ''py'' then Inl RenderFailure
        else Inr \<lparr>html = ''<pre>'' @ c, css = ''<style>'' @ c, script = ''<script>'' @ c\<rparr>),
      runtime = example_engine\<rparr>"

definition example_options :: plugin_options where
  "example_options =
     \<lparr>theme_option = None, loadLanguages = Some (\<lambda>h. True), lineNumbers_option = None\<rparr>"

definition example_start :: state where
  "example_start =
     \<lparr>languagesLoaded = False, blockCounter = 0, loadedLanguages = {}, events = []\<rparr>"

definition example_tree :: mdast where
  "example_tree =
     Parent [Other ''p'',
             Code \<lparr>node_lang = Some ''js'', node_meta = None, node_value = ''a''\<rparr>,
             Parent [Code \<lparr>node_lang = Some ''py'', node_meta = None, node_value = ''b''\<rparr>,
                     Other ''q''],
             Code \<lparr>node_lang = Some ''js'', node_meta = Some ''{1}'', node_value = ''c''\<rparr>]"


text \<open>The same collaborators with a loader that never fails.\<close>

definition reliable_world :: world where
  "reliable_world = example_world\<lparr>import_ok := (\<lambda>h l. True)\<rparr>"

text \<open>A document with fences at three depths, all in JavaScript.\<close>

definition nested_tree :: mdast where
  "nested_tree =
     Parent [Code \<lparr>node_lang = Some ''js'', node_meta = None, node_value = ''a''\<rparr>,
             Parent [Other ''q'',
                     Code \<lparr>node_lang = Some ''js'', node_meta = None, node_value = ''d''\<rparr>,
                     Parent [Code \<lparr>node_lang = Some ''js'', node_meta = None, node_value = ''e''\<rparr>]],
             Code \<lparr>node_lang = Some ''js'', node_meta = None, node_value = ''c''\<rparr>]"

definition nested_inner :: block where
  "nested_inner =
     \<lparr>node = \<lparr>node_lang = Some ''js'', node_meta = None, node_value = ''e''\<rparr>,
      index = 0, parent = [1, 2]\<rparr>"

section \<open>Lemmas about Numbers\<close>


lemma bit_length_le: "n < 2 ^ k \<Longrightarrow> bit_length n \<le> k"
proof (induction k arbitrary: n)
  case 0
  then show ?case by (subst bit_length.simps) simp
next
  case (Suc k)
  show ?case
  proof (cases "n \<le> 0")
    case True
    then show ?thesis by (subst bit_length.simps) simp
  next
    case False
    have "n div 2 < 2 ^ k" using Suc.prems by simp
    then have "bit_length (n div 2) \<le> k" by (rule Suc.IH)
    with False show ?thesis by (subst bit_length.simps) simp
  qed
qed

lemma bit_length_lower: "0 < n \<Longrightarrow> 2 ^ (bit_length n - 1) \<le> n"
proof (induction n rule: bit_length.induct)
  case (1 n)
  show ?case
  proof (cases "n div 2 \<le> 0")
    case True
    then have "n = 1" using 1 by simp
    moreover have "bit_length 1 = 1" by code_simp
    ultimately show ?thesis by simp
  next
    case False
    then have h: "0 < n div 2" by simp
    have ih: "2 ^ (bit_length (n div 2) - 1) \<le> n div 2" using 1 h by simp
    have pos: "0 < bit_length (n div 2)" using h by (subst bit_length.simps) simp
    have bl: "bit_length n = Suc (bit_length (n div 2))" using 1(2) by (subst bit_length.simps) simp
    have "(2::int) ^ (bit_length n - 1) = 2 * 2 ^ (bit_length (n div 2) - 1)"
      using bl pos by (cases "bit_length (n div 2)") auto
    also have "\<dots> \<le> 2 * (n div 2)" using ih by simp
    also have "\<dots> \<le> n" by simp
    finally show ?thesis .
  qed
qed

lemma round_to_double_exact: "n < 2 ^ 53 \<Longrightarrow> round_to_double n = n"
proof -
  assume "n < 2 ^ 53"
  then have "bit_length n - 53 = 0" using bit_length_le[of n 53] by simp
  then show ?thesis by (simp add: round_to_double_def)
qed

lemma round_to_double_pos: assumes "0 < n" shows "0 < round_to_double n"
proof -
  define e where "e = bit_length n - 53"
  have "e \<le> bit_length n - 1" by (simp add: e_def)
  then have "(2::int) ^ e \<le> 2 ^ (bit_length n - 1)" by (simp add: power_increasing)
  also have "\<dots> \<le> n" using assms by (rule bit_length_lower)
  finally have q: "0 < n div 2 ^ e"
    by (simp add: pos_imp_zdiv_pos_iff)
  have p: "(0::int) < 2 ^ e" by simp
  have "0 < (n div 2 ^ e) * 2 ^ e" using q p by (simp add: mult_pos_pos)
  moreover have "0 < (n div 2 ^ e + 1) * 2 ^ e" using q p by (simp add: mult_pos_pos)
  ultimately show ?thesis by (simp add: round_to_double_def e_def[symmetric] Let_def)
qed

lemma round_to_double_zero: "round_to_double 0 = 0"
  by (simp add: round_to_double_def)

lemma to_number_exact: "\<bar>z\<bar> < 2 ^ 53 \<Longrightarrow> to_number z = Fin z"
proof -
  assume a: "\<bar>z\<bar> < 2 ^ 53"
  have r: "round_to_double \<bar>z\<bar> = \<bar>z\<bar>" using a by (rule round_to_double_exact)
  have "\<bar>z\<bar> < (2::int) ^ 1024" using a by (rule less_trans) simp
  then show ?thesis using r by (auto simp: to_number_def Let_def)
qed

lemma to_number_nonpos:
  assumes "z \<le> 0" shows "to_number z = NegInf \<or> (\<exists>x\<le>0. to_number z = Fin x)"
proof (cases "z = 0")
  case True
  then show ?thesis by (simp add: to_number_def round_to_double_zero)
next
  case False
  then have "0 < \<bar>z\<bar>" by simp
  then have "0 < round_to_double \<bar>z\<bar>" by (rule round_to_double_pos)
  then show ?thesis using assms False by (auto simp: to_number_def Let_def)
qed

lemma to_number_neg:
  assumes "z < 0" shows "to_number z = NegInf \<or> (\<exists>x<0. to_number z = Fin x)"
proof -
  have "0 < \<bar>z\<bar>" using assms by simp
  then have "0 < round_to_double \<bar>z\<bar>" by (rule round_to_double_pos)
  then show ?thesis using assms by (auto simp: to_number_def Let_def)
qed

lemma reversed_range_length:
  assumes "js_less e s"
  shows "to_length (js_add (js_sub e s) (Fin 1)) = 0"
proof -
  have d: "js_sub e s = NegInf \<or> (\<exists>x<0. js_sub e s = Fin x)"
  proof (cases e)
    case (Fin a)
    show ?thesis
    proof (cases s)
      case (Fin b)
      with \<open>e = Fin a\<close> assms have "a - b < 0" by simp
      then show ?thesis using to_number_neg[of "a - b"] Fin \<open>e = Fin a\<close>
        by (simp add: js_sub_def)
    qed (use Fin assms in \<open>auto simp: js_sub_def\<close>)
  qed (use assms in \<open>cases s; auto simp: js_sub_def\<close>)+
  then show ?thesis
  proof
    assume "js_sub e s = NegInf"
    then show ?thesis by (simp add: to_length_def)
  next
    assume "\<exists>x<0. js_sub e s = Fin x"
    then obtain x where x: "x < 0" "js_sub e s = Fin x" by blast
    then have "x + 1 \<le> 0" by simp
    then show ?thesis using to_number_nonpos[of "x + 1"] x
      by (auto simp: to_length_def)
  qed
qed

section \<open>Lemmas about searching and splitting\<close>


lemma search_None_iff: "search m s = None \<longleftrightarrow> (\<forall>k\<le>length s. m (drop k s) = None)"
proof (induction s)
  case Nil
  then show ?case by simp
next
  case (Cons c cs)
  have "(\<forall>k\<le>length (c # cs). m (drop k (c # cs)) = None) \<longleftrightarrow>
        m (c # cs) = None \<and> (\<forall>k\<le>length cs. m (drop k cs) = None)"
    (is "?L \<longleftrightarrow> ?R")
  proof
    assume l: ?L
    have "m (drop 0 (c # cs)) = None" using l by blast
    moreover have "\<forall>k\<le>length cs. m (drop k cs) = None"
    proof (intro allI impI)
      fix k assume "k \<le> length cs"
      then have "m (drop (Suc k) (c # cs)) = None" using l by auto
      then show "m (drop k cs) = None" by simp
    qed
    ultimately show ?R by simp
  next
    assume r: ?R
    show ?L
    proof (intro allI impI)
      fix k assume "k \<le> length (c # cs)"
      then show "m (drop k (c # cs)) = None" using r by (cases k) auto
    qed
  qed
  with Cons show ?case by (auto split: option.splits)
qed

lemma search_append_first:
  assumes "m t = Some r" and "\<forall>k<length a. m (drop k a @ t) = None"
  shows "search m (a @ t) = Some r"
  using assms
proof (induction a)
  case Nil
  then show ?case by (cases t) auto
next
  case (Cons c a)
  have h0: "m ((c # a) @ t) = None" using Cons.prems(2) by force
  have "\<forall>k<length a. m (drop k a @ t) = None"
  proof (intro allI impI)
    fix k assume "k < length a"
    then have "m (drop (Suc k) (c # a) @ t) = None" using Cons.prems(2) by (metis Suc_less_eq length_Cons)
    then show "m (drop k a @ t) = None" by simp
  qed
  with Cons.IH Cons.prems(1) have "search m (a @ t) = Some r" by blast
  with h0 show ?case by simp
qed

lemma search_Some_ex:
  "search m s = Some r \<Longrightarrow> \<exists>k\<le>length s. m (drop k s) = Some r"
proof (induction s)
  case Nil
  then show ?case by simp
next
  case (Cons c cs)
  show ?case
  proof (cases "m (c # cs)")
    case None
    with Cons.prems have "search m cs = Some r" by simp
    with Cons.IH obtain k where "k \<le> length cs" "m (drop k cs) = Some r" by blast
    then have "Suc k \<le> length (c # cs) \<and> m (drop (Suc k) (c # cs)) = Some r" by simp
    then show ?thesis by blast
  next
    case (Some a)
    with Cons.prems have "m (drop 0 (c # cs)) = Some r" by simp
    then show ?thesis by blast
  qed
qed

lemma search_Some_split:
  assumes "search m s = Some r"
  shows "\<exists>a t. s = a @ t \<and> m t = Some r"
proof -
  from search_Some_ex[OF assms] obtain k where "m (drop k s) = Some r" by blast
  moreover have "s = take k s @ drop k s" by simp
  ultimately show ?thesis by blast
qed

lemma search_found:
  assumes "m t \<noteq> None" shows "search m (a @ t) \<noteq> None"
proof
  assume "search m (a @ t) = None"
  then have "\<forall>k\<le>length (a @ t). m (drop k (a @ t)) = None" by (simp only: search_None_iff)
  then have "m (drop (length a) (a @ t)) = None" by (metis le_add1 length_append)
  with assms show False by simp
qed

lemma match_here_Some_iff:
  "match_here opening cls closing s = Some r \<longleftrightarrow>
     (\<exists>rest. s = opening @ r @ rest \<and> r \<noteq> [] \<and> (\<forall>c\<in>set r. cls c) \<and>
             (rest = [] \<or> \<not> cls (hd rest)) \<and> prefix closing rest)"
  (is "?L \<longleftrightarrow> ?R")
proof
  assume l: ?L
  then have p: "prefix opening s"
    by (auto simp: match_here_def split: if_splits)
  define t where "t = drop (length opening) s"
  have s: "s = opening @ t" using p by (auto simp: t_def prefix_def)
  from l p have run: "takeWhile cls t = r" "r \<noteq> []" "prefix closing (dropWhile cls t)"
    by (auto simp: match_here_def t_def Let_def split: if_splits)
  have "s = opening @ r @ dropWhile cls t" using s run(1) by (metis takeWhile_dropWhile_id)
  moreover have "\<forall>c\<in>set r. cls c" using run(1) by (metis set_takeWhileD)
  moreover have "dropWhile cls t = [] \<or> \<not> cls (hd (dropWhile cls t))"
    by (metis hd_dropWhile)
  ultimately show ?R using run by blast
next
  assume ?R
  then obtain rest where r: "s = opening @ r @ rest" "r \<noteq> []" "\<forall>c\<in>set r. cls c"
    "rest = [] \<or> \<not> cls (hd rest)" "prefix closing rest" by blast
  have tw: "takeWhile cls (r @ rest) = r"
    using r(3,4) by (cases rest) (auto simp: takeWhile_append2 takeWhile_eq_all_conv)
  have dw: "dropWhile cls (r @ rest) = rest"
    using r(3,4) by (cases rest) (auto simp: dropWhile_append2 )
  show ?L using r tw dw by (simp add: match_here_def)
qed

lemma match_here_open:
  assumes "cls c" shows "match_here opening cls [] (opening @ c # t) \<noteq> None"
  using assms by (simp add: match_here_def)




lemma split_on_nonempty: "split_on c s \<noteq> []"
  by (induction s) (auto split: list.splits)

lemma split_on_absent: "c \<notin> set s \<Longrightarrow> split_on c s = [s]"
  by (induction s) auto

lemma split_on_chars:
  "x \<in> set s \<Longrightarrow> x = c \<or> (\<exists>p\<in>set (split_on c s). x \<in> set p)"
proof (induction s)
  case Nil
  then show ?case by simp
next
  case (Cons y s)
  then show ?case
    by (cases "split_on c s") (auto simp: split_on_nonempty)
qed

lemma digit_not_space: "is_digit c \<Longrightarrow> \<not> is_space c"
  by (auto simp: is_digit_def is_space_def)

lemma digit_not_sign: "is_digit c \<Longrightarrow> c \<noteq> CHR ''-'' \<and> c \<noteq> CHR ''+''"
  by (auto simp: is_digit_def)

lemma trim_digits: "list_all is_digit s \<Longrightarrow> trim s = s"
proof -
  assume a: "list_all is_digit s"
  then have "\<forall>c\<in>set s. \<not> is_space c" by (auto simp: list_all_iff digit_not_space)
  then have 1: "dropWhile is_space s = s" and "\<forall>c\<in>set (rev s). \<not> is_space c"
    by (auto simp: dropWhile_eq_self_iff dest: hd_in_set)
  then have 2: "dropWhile is_space (rev s) = rev s"
    by (metis dropWhile_eq_self_iff hd_in_set)
  show ?thesis by (simp add: trim_def 1 2)
qed

lemma parseInt_digits:
  assumes "digits ds" shows "parseInt (trim ds) = to_number (dec_val ds)"
proof -
  from assms have ne: "ds \<noteq> []" and all: "list_all is_digit ds" by (auto simp: digits_def)
  have hd: "is_digit (hd ds)" using ne all by (cases ds) auto
  have 1: "dropWhile is_space ds = ds"
    using hd ne by (cases ds) (auto simp: digit_not_space)
  have 2: "takeWhile is_digit ds = ds" using all by (simp add: takeWhile_eq_all_conv list_all_iff)
  show ?thesis using ne hd digit_not_sign[OF hd]
    by (simp add: parseInt_def trim_digits[OF all] 1 2 Let_def)
qed

lemma parseInt_empty: "parseInt (trim []) = NaN"
  by (simp add: parseInt_def trim_def)

section \<open>The parser: exceptions\<close>



lemma flat_map_Inl_ex: "flat_map f xs = Inl e \<Longrightarrow> \<exists>x\<in>set xs. f x = Inl e"
  by (induction xs) (auto split: sum.splits)

lemma flat_map_raises: "x \<in> set xs \<Longrightarrow> f x = Inl e \<Longrightarrow> \<exists>e'. flat_map f xs = Inl e'"
  by (induction xs) (auto split: sum.splits)

lemma flat_map_append:
  "flat_map f xs = Inr a \<Longrightarrow> flat_map f ys = Inr b \<Longrightarrow> flat_map f (xs @ ys) = Inr (a @ b)"
  by (induction xs arbitrary: a) (auto split: sum.splits)



lemma alloc_outcome_zero: "alloc_outcome eng 0 = None"
  by (simp add: alloc_outcome_def)




lemma focusMatch_nonempty: "focusMatch meta = Some g \<Longrightarrow> meta \<noteq> []"
  by (auto simp: focusMatch_def match_here_def)

lemma parseMetaString_focus:
  "parseMetaString eng (Some meta) =
     (case focusMatch meta of
        None \<Rightarrow> parseMetaString eng (Some meta)
      | Some g \<Rightarrow>
          (case flat_map (focus_part eng) (split_on CHR '','' g) of
             Inl e \<Rightarrow> Inl e
           | Inr ls \<Rightarrow> Inr \<lparr>highlightLines = parse_highlight meta,
                             lineNumbers = parse_line_numbers meta,
                             diffLines = parse_diff meta,
                             focusLines = Some ls\<rparr>))"
proof (cases "focusMatch meta")
  case None
  then show ?thesis by simp
next
  case (Some g)
  then have "meta \<noteq> []" by (rule focusMatch_nonempty)
  then show ?thesis using Some
    by (simp add: parseMetaString_def parse_focus_def split: sum.splits)
qed



lemma match_alts_single: "match_alts [a] cls closing s = match_here a cls closing s"
  by (simp split: option.splits)









section \<open>The parser: focus ranges and interfering directives\<close>


lemma split_on_append: "c \<notin> set s \<Longrightarrow> split_on c (s @ c # t) = s # split_on c t"
proof (induction s)
  case Nil
  then show ?case by simp
next
  case (Cons x s)
  then have "x \<noteq> c" "c \<notin> set s" by auto
  with Cons.IH show ?case by simp
qed

lemma digits_no_hyphen: "digits s \<Longrightarrow> CHR ''-'' \<notin> set s"
  unfolding digits_def list_all_iff by (metis digit_not_sign)

lemma not_digit_comma: "\<not> is_digit CHR '',''"
  by (simp add: is_digit_def)

lemma digits_no_comma: "digits s \<Longrightarrow> CHR '','' \<notin> set s"
  unfolding digits_def list_all_iff by (metis not_digit_comma)

lemma written_range_pieces:
  assumes "digits s" "digits e"
  shows "range_pieces (s @ CHR ''-'' # e) = [to_number (dec_val s), to_number (dec_val e)]"
proof -
  have "split_on CHR ''-'' (s @ CHR ''-'' # e) = [s, e]"
    using assms by (simp add: split_on_append split_on_absent digits_no_hyphen)
  then show ?thesis using assms by (simp add: range_pieces_def parseInt_digits)
qed

lemma dec_val_nonneg: "list_all is_digit s \<Longrightarrow> 0 \<le> dec_val s"
proof -
  have "list_all is_digit s \<Longrightarrow> 0 \<le> a \<Longrightarrow> 0 \<le> foldl (\<lambda>a c. 10 * a + digit_val c) a s" for a
  proof (induction s arbitrary: a)
    case Nil
    then show ?case by simp
  next
    case (Cons c s)
    have "0 \<le> digit_val c" using Cons.prems(1)
      by (auto simp: is_digit_def digit_val_def)
    then have "0 \<le> 10 * a + digit_val c" using Cons.prems(2) by simp
    with Cons show ?case by simp
  qed
  then show "list_all is_digit s \<Longrightarrow> 0 \<le> dec_val s" by (simp add: dec_val_def)
qed

text \<open>A range written high-to-low, with endpoints that a double holds exactly.\<close>

lemma written_reversed_range:
  assumes "digits s" "digits e" "dec_val e < dec_val s" "dec_val s < 2 ^ 53"
  shows "js_less (range_end (s @ ''-'' @ e)) (range_start (s @ ''-'' @ e))"
proof -
  have "0 \<le> dec_val s" "0 \<le> dec_val e" using assms(1,2) by (auto simp: digits_def dec_val_nonneg)
  then have "\<bar>dec_val s\<bar> < 2 ^ 53" "\<bar>dec_val e\<bar> < 2 ^ 53" using assms(3,4) by auto
  then have "to_number (dec_val s) = Fin (dec_val s)" "to_number (dec_val e) = Fin (dec_val e)"
    by (auto intro: to_number_exact)
  then show ?thesis using assms(3)
    by (simp add: range_end_def range_start_def written_range_pieces[OF assms(1,2)])
qed

lemma reversed_focus_part:
  assumes "CHR ''-'' \<in> set part" "js_less (range_end part) (range_start part)"
  shows "focus_part eng part = Inr []"
  using assms reversed_range_length[OF assms(2)]
  by (simp add: focus_part_def array_from_def alloc_outcome_zero)

lemma flat_map_skip:
  assumes "f x = Inr []"
  shows "flat_map f (ps @ [x] @ qs) = flat_map f (ps @ qs)"
proof (induction ps)
  case Nil
  then show ?case using assms by (simp split: sum.splits)
next
  case (Cons p ps)
  then show ?case by (simp split: sum.splits)
qed

text \<open>
  C10 (as amended).  In a focus group, a range whose end is below its start (as the Numbers
  that \<^verbatim>\<open>parseInt\<close> returns for the two endpoints) expands to the empty list and fails
  on no engine: the parser does with the group what it does with the group without that
  range, so that the focused lines are exactly those of the other parts, and a group that
  holds nothing else gives the empty list.  A range written high-to-low with endpoints below
  \<open>2^53\<close> is such a range.
\<close>

theorem reversed_focus_range_contributes_nothing:
  assumes "CHR ''-'' \<in> set part"
    and "js_less (range_end part) (range_start part)"
  shows "focus_part eng part = Inr [] \<and>
     flat_map (focus_part eng) (ps @ [part] @ qs) = flat_map (focus_part eng) (ps @ qs) \<and>
     (focusMatch meta = Some g \<and> split_on CHR '','' g = ps @ [part] @ qs \<longrightarrow>
        parseMetaString eng (Some meta) =
          (case flat_map (focus_part eng) (ps @ qs) of
             Inl e \<Rightarrow> Inl e
           | Inr ls \<Rightarrow> Inr \<lparr>highlightLines = parse_highlight meta,
                             lineNumbers = parse_line_numbers meta,
                             diffLines = parse_diff meta,
                             focusLines = Some ls\<rparr>)) \<and>
     (focusMatch meta = Some g \<and> split_on CHR '','' g = [part] \<longrightarrow>
        (\<exists>d. parseMetaString eng (Some meta) = Inr d \<and> focusLines d = Some [])) \<and>
     (\<forall>s e. digits s \<and> digits e \<and> dec_val e < dec_val s \<and> dec_val s < 2 ^ 53 \<longrightarrow>
        js_less (range_end (s @ ''-'' @ e)) (range_start (s @ ''-'' @ e)))"
proof -
  have g1: "focus_part eng part = Inr []" using assms by (rule reversed_focus_part)
  have skip: "flat_map (focus_part eng) (xs @ [part] @ ys) = flat_map (focus_part eng) (xs @ ys)"
    for xs ys
    using g1 by (rule flat_map_skip)
  have g2: "flat_map (focus_part eng) (ps @ [part] @ qs) = flat_map (focus_part eng) (ps @ qs)"
    by (rule skip)
  have g3: "focusMatch meta = Some g \<and> split_on CHR '','' g = ps @ [part] @ qs \<longrightarrow>
        parseMetaString eng (Some meta) =
          (case flat_map (focus_part eng) (ps @ qs) of
             Inl e \<Rightarrow> Inl e
           | Inr ls \<Rightarrow> Inr \<lparr>highlightLines = parse_highlight meta,
                             lineNumbers = parse_line_numbers meta,
                             diffLines = parse_diff meta,
                             focusLines = Some ls\<rparr>)"
  proof
    assume h: "focusMatch meta = Some g \<and> split_on CHR '','' g = ps @ [part] @ qs"
    have "parseMetaString eng (Some meta) =
          (case flat_map (focus_part eng) (split_on CHR '','' g) of
             Inl e \<Rightarrow> Inl e
           | Inr ls \<Rightarrow> Inr \<lparr>highlightLines = parse_highlight meta,
                             lineNumbers = parse_line_numbers meta,
                             diffLines = parse_diff meta,
                             focusLines = Some ls\<rparr>)"
      by (subst parseMetaString_focus) (simp add: h)
    also have "flat_map (focus_part eng) (split_on CHR '','' g) =
        flat_map (focus_part eng) (ps @ qs)"
      using h g2 by simp
    finally show "parseMetaString eng (Some meta) =
          (case flat_map (focus_part eng) (ps @ qs) of
             Inl e \<Rightarrow> Inl e
           | Inr ls \<Rightarrow> Inr \<lparr>highlightLines = parse_highlight meta,
                             lineNumbers = parse_line_numbers meta,
                             diffLines = parse_diff meta,
                             focusLines = Some ls\<rparr>)" .
  qed
  have g4: "focusMatch meta = Some g \<and> split_on CHR '','' g = [part] \<longrightarrow>
        (\<exists>d. parseMetaString eng (Some meta) = Inr d \<and> focusLines d = Some [])"
  proof
    assume h: "focusMatch meta = Some g \<and> split_on CHR '','' g = [part]"
    have "parseMetaString eng (Some meta) =
          (case flat_map (focus_part eng) (split_on CHR '','' g) of
             Inl e \<Rightarrow> Inl e
           | Inr ls \<Rightarrow> Inr \<lparr>highlightLines = parse_highlight meta,
                             lineNumbers = parse_line_numbers meta,
                             diffLines = parse_diff meta,
                             focusLines = Some ls\<rparr>)"
      by (subst parseMetaString_focus) (simp add: h)
    then show "\<exists>d. parseMetaString eng (Some meta) = Inr d \<and> focusLines d = Some []"
      using h g1 by simp
  qed
  have g5: "\<forall>s e. digits s \<and> digits e \<and> dec_val e < dec_val s \<and> dec_val s < 2 ^ 53 \<longrightarrow>
        js_less (range_end (s @ ''-'' @ e)) (range_start (s @ ''-'' @ e))"
    using written_reversed_range by blast
  show ?thesis by (rule conjI[OF g1 conjI[OF g2 conjI[OF g3 conjI[OF g4 g5]]]])
qed

theorem reversed_focus_range_contributes_nothing_witness:
  "focus_part example_engine ''3-1'' = Inr [] \<and>
   (\<exists>d. parseMetaString example_engine (Some ''focus{1,3-1,5}'') = Inr d \<and>
      focusLines d = Some [Fin 1, Fin 5]) \<and>
   (\<exists>d. parseMetaString example_engine (Some ''focus{3-1}'') = Inr d \<and> focusLines d = Some [])"
proof -
  define part where "part = ''3-1''"
  have 3: "CHR ''-'' \<in> set part" unfolding part_def by simp
  have 4: "js_less (range_end part) (range_start part)" unfolding part_def by code_simp
  note T = reversed_focus_range_contributes_nothing[OF 3 4]
  have w1: "focus_part example_engine ''3-1'' = Inr []"
    using T[of example_engine, THEN conjunct1] unfolding part_def .
  have w2: "\<exists>d. parseMetaString example_engine (Some ''focus{1,3-1,5}'') = Inr d \<and>
      focusLines d = Some [Fin 1, Fin 5]"
  proof -
    define m where "m = ''focus{1,3-1,5}''"
    define g where "g = ''1,3-1,5''"
    define p where "p = ''1''"
    define q where "q = ''5''"
    have 1: "focusMatch m = Some g" unfolding m_def g_def by code_simp
    have 2: "split_on CHR '','' g = [p] @ [part] @ [q]"
      unfolding g_def part_def p_def q_def by code_simp
    have 5: "flat_map (focus_part example_engine) ([p] @ [q]) = Inr [Fin 1, Fin 5]"
      unfolding p_def q_def by code_simp
    have "focusMatch m = Some g \<and> split_on CHR '','' g = [p] @ [part] @ [q]"
      using 1 2 by (rule conjI)
    with T[of example_engine "[p]" "[q]" m g, THEN conjunct2, THEN conjunct2, THEN conjunct1]
    have "parseMetaString example_engine (Some m) =
          (case flat_map (focus_part example_engine) ([p] @ [q]) of
             Inl e \<Rightarrow> Inl e
           | Inr ls \<Rightarrow> Inr \<lparr>highlightLines = parse_highlight m,
                             lineNumbers = parse_line_numbers m,
                             diffLines = parse_diff m,
                             focusLines = Some ls\<rparr>)"
      by (rule mp)
    then have "\<exists>d. parseMetaString example_engine (Some m) = Inr d \<and>
        focusLines d = Some [Fin 1, Fin 5]"
      unfolding 5 by simp
    then show ?thesis unfolding m_def .
  qed
  have w3: "\<exists>d. parseMetaString example_engine (Some ''focus{3-1}'') = Inr d \<and>
      focusLines d = Some []"
  proof -
    define m where "m = ''focus{3-1}''"
    have 1: "focusMatch m = Some part" unfolding m_def part_def by code_simp
    have 2: "split_on CHR '','' part = [part]" unfolding part_def by code_simp
    have "focusMatch m = Some part \<and> split_on CHR '','' part = [part]"
      using 1 2 by (rule conjI)
    with T[of example_engine "[]" "[]" m part, THEN conjunct2, THEN conjunct2, THEN conjunct2,
        THEN conjunct1]
    have "\<exists>d. parseMetaString example_engine (Some m) = Inr d \<and> focusLines d = Some []"
      by (rule mp)
    then show ?thesis unfolding m_def .
  qed
  show ?thesis by (rule conjI[OF w1 conjI[OF w2 w3]])
qed

theorem reversed_range_with_rounded_endpoints_counterexample:
  "parseMetaString example_engine (Some ''focus{9007199254740993-9007199254740992}'') =
     Inr \<lparr>highlightLines = Some ''9007199254740993-9007199254740992'', lineNumbers = None,
          diffLines = Some \<lparr>added = None, removed = Some [Fin 9007199254740992]\<rparr>,
          focusLines = Some [Fin 9007199254740992]\<rparr>"
  by code_simp

text \<open>
  C2.  The hyphen of a highlight range is read by the scan for removed lines, and the brace
  group of a focus directive is read by the scan for highlighted lines.  On every engine
  the annotation \<open>{1-3}\<close> marks line 3 as removed and \<open>focus{2,3}\<close> highlights lines 2
  and 3.  For the combined example of the README the parser does what the engine does with
  the array of the two focused lines: when the engine builds it, line 2 is marked as
  removed, as on the example engine.
\<close>

theorem directives_interfere:
  "parseMetaString eng (Some ''{1-3}'') =
     Inr \<lparr>highlightLines = Some ''1-3'', lineNumbers = None,
          diffLines = Some \<lparr>added = None, removed = Some [Fin 3]\<rparr>, focusLines = None\<rparr> \<and>
   parseMetaString eng (Some ''focus{2,3}'') =
     Inr \<lparr>highlightLines = Some ''2,3'', lineNumbers = None,
          diffLines = None, focusLines = Some [Fin 2, Fin 3]\<rparr> \<and>
   parseMetaString eng (Some ''{1,3} showLineNumbers:10 +1 focus{1-2}'') =
     (case alloc_outcome eng 2 of
        Some e \<Rightarrow> Inl e
      | None \<Rightarrow>
          Inr \<lparr>highlightLines = Some ''1,3'', lineNumbers = Some (LnStart (Some (Fin 10))),
               diffLines = Some \<lparr>added = Some [Fin 1], removed = Some [Fin 2]\<rparr>,
               focusLines = Some [Fin 1, Fin 2]\<rparr>) \<and>
   parseMetaString example_engine (Some ''{1,3} showLineNumbers:10 +1 focus{1-2}'') =
     Inr \<lparr>highlightLines = Some ''1,3'', lineNumbers = Some (LnStart (Some (Fin 10))),
          diffLines = Some \<lparr>added = Some [Fin 1], removed = Some [Fin 2]\<rparr>,
          focusLines = Some [Fin 1, Fin 2]\<rparr>"
proof -
  have 1: "parseMetaString eng (Some ''{1-3}'') =
     Inr \<lparr>highlightLines = Some ''1-3'', lineNumbers = None,
          diffLines = Some \<lparr>added = None, removed = Some [Fin 3]\<rparr>, focusLines = None\<rparr>"
    by code_simp
  have 2: "parseMetaString eng (Some ''focus{2,3}'') =
     Inr \<lparr>highlightLines = Some ''2,3'', lineNumbers = None,
          diffLines = None, focusLines = Some [Fin 2, Fin 3]\<rparr>"
    by code_simp
  have 3: "parseMetaString example_engine (Some ''{1,3} showLineNumbers:10 +1 focus{1-2}'') =
     Inr \<lparr>highlightLines = Some ''1,3'', lineNumbers = Some (LnStart (Some (Fin 10))),
          diffLines = Some \<lparr>added = Some [Fin 1], removed = Some [Fin 2]\<rparr>,
          focusLines = Some [Fin 1, Fin 2]\<rparr>"
    by code_simp
  have 4: "parseMetaString eng (Some ''{1,3} showLineNumbers:10 +1 focus{1-2}'') =
     (case alloc_outcome eng 2 of
        Some e \<Rightarrow> Inl e
      | None \<Rightarrow>
          Inr \<lparr>highlightLines = Some ''1,3'', lineNumbers = Some (LnStart (Some (Fin 10))),
               diffLines = Some \<lparr>added = Some [Fin 1], removed = Some [Fin 2]\<rparr>,
               focusLines = Some [Fin 1, Fin 2]\<rparr>)"
  proof -
    define m where "m = ''{1,3} showLineNumbers:10 +1 focus{1-2}''"
    define g where "g = ''1-2''"
    have fm: "focusMatch m = Some g" unfolding m_def g_def by code_simp
    have sp: "split_on CHR '','' g = [g]" unfolding g_def by code_simp
    have h: "parse_highlight m = Some ''1,3''" unfolding m_def by code_simp
    have n: "parse_line_numbers m = Some (LnStart (Some (Fin 10)))" unfolding m_def by code_simp
    have d: "parse_diff m = Some \<lparr>added = Some [Fin 1], removed = Some [Fin 2]\<rparr>"
      unfolding m_def by code_simp
    have mem: "CHR ''-'' \<in> set g" unfolding g_def by simp
    have st: "range_start g = Fin 1" unfolding g_def by code_simp
    have len: "to_length (js_add (js_sub (range_end g) (Fin 1)) (Fin 1)) = 2"
      unfolding g_def by code_simp
    have els: "map (\<lambda>i. js_add (Fin 1) (Fin (int i))) [0..<nat 2] = [Fin 1, Fin 2]"
      by code_simp
    have fp: "focus_part eng g =
        (case alloc_outcome eng 2 of Some e \<Rightarrow> Inl e | None \<Rightarrow> Inr [Fin 1, Fin 2])"
      unfolding focus_part_def array_from_def Let_def st len els using mem by simp
    have pf: "parseMetaString eng (Some m) =
       (case flat_map (focus_part eng) (split_on CHR '','' g) of
          Inl e \<Rightarrow> Inl e
        | Inr ls \<Rightarrow> Inr \<lparr>highlightLines = parse_highlight m,
                          lineNumbers = parse_line_numbers m,
                          diffLines = parse_diff m,
                          focusLines = Some ls\<rparr>)"
      using parseMetaString_focus[of eng m] by (simp only: fm option.case)
    have "parseMetaString eng (Some m) =
       (case alloc_outcome eng 2 of
          Some e \<Rightarrow> Inl e
        | None \<Rightarrow>
            Inr \<lparr>highlightLines = Some ''1,3'', lineNumbers = Some (LnStart (Some (Fin 10))),
                 diffLines = Some \<lparr>added = Some [Fin 1], removed = Some [Fin 2]\<rparr>,
                 focusLines = Some [Fin 1, Fin 2]\<rparr>)"
      unfolding pf sp h n d
      by (simp add: fp split: option.splits)
    then show ?thesis unfolding m_def .
  qed
  show ?thesis by (rule conjI[OF 1 conjI[OF 2 conjI[OF 4 3]]])
qed

section \<open>The parser: diff indicators\<close>


lemma not_list_char_signs: "\<not> list_char CHR ''+''" "\<not> list_char CHR ''-''"
  by (simp_all add: list_char_def is_digit_def)

lemma takeWhile_hd: "takeWhile P xs \<noteq> [] \<longleftrightarrow> xs \<noteq> [] \<and> P (hd xs)"
  by (cases xs) auto

lemma single_match_iff:
  "match_alts [[c0]] cls [] t \<noteq> None \<longleftrightarrow> (\<exists>x b. t = c0 # x # b \<and> cls x)"
proof -
  have "match_alts [[c0]] cls [] t \<noteq> None \<longleftrightarrow> prefix [c0] t \<and> takeWhile cls (drop 1 t) \<noteq> []"
    by (simp add: match_alts_single match_here_def Let_def)
  also have "\<dots> \<longleftrightarrow> (\<exists>x b. t = c0 # x # b \<and> cls x)"
  proof (cases t)
    case Nil
    then show ?thesis by simp
  next
    case (Cons y ys)
    then show ?thesis by (cases ys) (auto simp: takeWhile_hd)
  qed
  finally show ?thesis .
qed

lemma single_search_iff:
  "search (match_alts [[c0]] cls []) s \<noteq> None \<longleftrightarrow> (\<exists>a x b. s = a @ c0 # x # b \<and> cls x)"
  (is "?L \<longleftrightarrow> ?R")
proof
  assume ?L
  then obtain r where "search (match_alts [[c0]] cls []) s = Some r" by blast
  from search_Some_split[OF this] obtain a t where
    at: "s = a @ t" "match_alts [[c0]] cls [] t = Some r" by blast
  then have "match_alts [[c0]] cls [] t \<noteq> None" by simp
  then obtain x b where "t = c0 # x # b" "cls x" unfolding single_match_iff by blast
  with at(1) show ?R by blast
next
  assume ?R
  then obtain a x b where s: "s = a @ c0 # x # b" "cls x" by blast
  then have "match_alts [[c0]] cls [] (c0 # x # b) \<noteq> None" unfolding single_match_iff by blast
  then show ?L unfolding s(1) by (rule search_found)
qed

lemma single_search_first:
  assumes r: "r \<noteq> []" "\<forall>c\<in>set r. cls c" "b = [] \<or> \<not> cls (hd b)"
    and c0: "\<not> cls c0"
    and before: "\<forall>a1 a2. a = a1 @ c0 # a2 \<longrightarrow> a2 = [] \<or> \<not> cls (hd a2)"
  shows "search (match_alts [[c0]] cls []) (a @ c0 # r @ b) = Some r"
proof (rule search_append_first)
  have "match_here [c0] cls [] ([c0] @ r @ b) = Some r"
    unfolding match_here_Some_iff using r by auto
  then show "match_alts [[c0]] cls [] (c0 # r @ b) = Some r" by (simp add: match_alts_single)
next
  show "\<forall>k<length a. match_alts [[c0]] cls [] (drop k a @ c0 # r @ b) = None"
  proof (intro allI impI, rule ccontr)
    fix k assume k: "k < length a"
    assume "match_alts [[c0]] cls [] (drop k a @ c0 # r @ b) \<noteq> None"
    then obtain x y where xy: "drop k a @ c0 # r @ b = c0 # x # y" "cls x"
      unfolding single_match_iff by blast
    from k obtain u us where u: "drop k a = u # us" by (cases "drop k a") auto
    with xy have "u = c0" and tl: "us @ c0 # r @ b = x # y" by auto
    have a: "a = take k a @ c0 # us" using u \<open>u = c0\<close> by (metis append_take_drop_id)
    show False
    proof (cases us)
      case Nil
      with tl have "x = c0" by simp
      with xy(2) c0 show False by simp
    next
      case (Cons v vs)
      with tl have "hd us = x" by simp
      moreover from before a Cons have "\<not> cls (hd us)" by blast
      ultimately show False using xy(2) by simp
    qed
  qed
qed

lemma number_list_chars:
  assumes "number_list r" shows "r \<noteq> [] \<and> (\<forall>c\<in>set r. list_char c)"
proof
  show "r \<noteq> []" using assms by (auto simp: number_list_def digits_def)
  show "\<forall>c\<in>set r. list_char c"
  proof
    fix c assume "c \<in> set r"
    then consider "c = CHR '',''" | p where "p \<in> set (split_on CHR '','' r)" "c \<in> set p"
      using split_on_chars by blast
    then show "list_char c"
    proof cases
      case 1
      then show ?thesis by (simp add: list_char_def)
    next
      case 2
      with assms have "is_digit c" by (auto simp: number_list_def digits_def list_all_iff)
      then show ?thesis by (simp add: list_char_def)
    qed
  qed
qed

lemma int_list_numbers:
  assumes "number_list r"
  shows "int_list r = map (\<lambda>n. to_number (dec_val n)) (split_on CHR '','' r)"
  using assms by (auto simp: int_list_def number_list_def list_all_iff parseInt_digits)

section \<open>The parser: the two diff scans\<close>


lemma parse_empty:
  "parse_highlight [] = None" "parse_line_numbers [] = None" "parse_diff [] = None"
  by (simp_all add: parse_highlight_def highlightMatch_def parse_line_numbers_def
      parse_diff_def diffAddMatch_def diffRemoveMatch_def match_here_def)

lemma parse_fields:
  assumes "parseMetaString eng (Some meta) = Inr d"
  shows "highlightLines d = parse_highlight meta \<and> lineNumbers d = parse_line_numbers meta \<and>
         diffLines d = parse_diff meta"
proof (cases "meta = []")
  case True
  with assms have "d = no_directives" by (simp add: parseMetaString_def)
  with True show ?thesis by (simp add: no_directives_def parse_empty)
next
  case False
  with assms show ?thesis
    by (auto simp: parseMetaString_def split: sum.splits)
qed

lemma diffAddMatch_first:
  assumes "number_list r" "b = [] \<or> \<not> list_char (hd b)"
    and "\<forall>a1 a2. a = a1 @ ''+'' @ a2 \<longrightarrow> a2 = [] \<or> \<not> list_char (hd a2)"
  shows "diffAddMatch (a @ ''+'' @ r @ b) = Some r"
  unfolding diffAddMatch_def using assms number_list_chars[OF assms(1)]
    single_search_first[of r list_char b "CHR ''+''" a]
  by (simp add: not_list_char_signs)

lemma diffRemoveMatch_first:
  assumes "number_list r" "b = [] \<or> \<not> list_char (hd b)"
    and "\<forall>a1 a2. a = a1 @ ''-'' @ a2 \<longrightarrow> a2 = [] \<or> \<not> list_char (hd a2)"
  shows "diffRemoveMatch (a @ ''-'' @ r @ b) = Some r"
  unfolding diffRemoveMatch_def using assms number_list_chars[OF assms(1)]
    single_search_first[of r list_char b "CHR ''-''" a]
  by (simp add: not_list_char_signs)

lemma diffAddMatch_None_iff:
  "diffAddMatch meta = None \<longleftrightarrow> (\<forall>a b. meta = a @ ''+'' @ b \<longrightarrow> b = [] \<or> \<not> list_char (hd b))"
proof -
  have "diffAddMatch meta \<noteq> None \<longleftrightarrow> (\<exists>a x b. meta = a @ CHR ''+'' # x # b \<and> list_char x)"
    unfolding diffAddMatch_def by (rule single_search_iff)
  also have "\<dots> \<longleftrightarrow> (\<exists>a b. meta = a @ ''+'' @ b \<and> b \<noteq> [] \<and> list_char (hd b))"
  proof
    assume "\<exists>a x b. meta = a @ CHR ''+'' # x # b \<and> list_char x"
    then obtain a x b where "meta = a @ ''+'' @ (x # b)" "x # b \<noteq> []" "list_char (hd (x # b))"
      by auto
    then show "\<exists>a b. meta = a @ ''+'' @ b \<and> b \<noteq> [] \<and> list_char (hd b)" by blast
  next
    assume "\<exists>a b. meta = a @ ''+'' @ b \<and> b \<noteq> [] \<and> list_char (hd b)"
    then obtain a b where ab: "meta = a @ ''+'' @ b" "b \<noteq> []" "list_char (hd b)" by blast
    then obtain x y where "b = x # y" by (cases b) auto
    with ab show "\<exists>a x b. meta = a @ CHR ''+'' # x # b \<and> list_char x" by auto
  qed
  finally show ?thesis by blast
qed

lemma diffRemoveMatch_None_iff:
  "diffRemoveMatch meta = None \<longleftrightarrow> (\<forall>a b. meta = a @ ''-'' @ b \<longrightarrow> b = [] \<or> \<not> list_char (hd b))"
proof -
  have "diffRemoveMatch meta \<noteq> None \<longleftrightarrow> (\<exists>a x b. meta = a @ CHR ''-'' # x # b \<and> list_char x)"
    unfolding diffRemoveMatch_def by (rule single_search_iff)
  also have "\<dots> \<longleftrightarrow> (\<exists>a b. meta = a @ ''-'' @ b \<and> b \<noteq> [] \<and> list_char (hd b))"
  proof
    assume "\<exists>a x b. meta = a @ CHR ''-'' # x # b \<and> list_char x"
    then obtain a x b where "meta = a @ ''-'' @ (x # b)" "x # b \<noteq> []" "list_char (hd (x # b))"
      by auto
    then show "\<exists>a b. meta = a @ ''-'' @ b \<and> b \<noteq> [] \<and> list_char (hd b)" by blast
  next
    assume "\<exists>a b. meta = a @ ''-'' @ b \<and> b \<noteq> [] \<and> list_char (hd b)"
    then obtain a b where ab: "meta = a @ ''-'' @ b" "b \<noteq> []" "list_char (hd b)" by blast
    then obtain x y where "b = x # y" by (cases b) auto
    with ab show "\<exists>a x b. meta = a @ CHR ''-'' # x # b \<and> list_char x" by auto
  qed
  finally show ?thesis by blast
qed

section \<open>The parser: diff marks\<close>


text \<open>
  C9 (as amended).  In a returned directive set, the added lines are read from the first
  \<open>+\<close> that a digit or a comma follows, and the removed lines from the first such \<open>-\<close>;
  the two scans are independent, so their order in the string does not matter.  When the
  run after that indicator is a list of numbers, its numbers are the line set.  An
  indicator that is not immediately followed by a digit or a comma does not match: when
  the string has no other, the set stays absent.
\<close>

theorem diff_marks_first_lists:
  assumes "parseMetaString eng (Some meta) = Inr d"
  shows
    "(\<forall>a r b. meta = a @ ''+'' @ r @ b \<and> number_list r \<and> (b = [] \<or> \<not> list_char (hd b)) \<and>
         (\<forall>a1 a2. a = a1 @ ''+'' @ a2 \<longrightarrow> a2 = [] \<or> \<not> list_char (hd a2))
       \<longrightarrow> (\<exists>dl. diffLines d = Some dl \<and>
              added dl = Some (map (\<lambda>n. to_number (dec_val n)) (split_on CHR '','' r)))) \<and>
     (\<forall>a r b. meta = a @ ''-'' @ r @ b \<and> number_list r \<and> (b = [] \<or> \<not> list_char (hd b)) \<and>
         (\<forall>a1 a2. a = a1 @ ''-'' @ a2 \<longrightarrow> a2 = [] \<or> \<not> list_char (hd a2))
       \<longrightarrow> (\<exists>dl. diffLines d = Some dl \<and>
              removed dl = Some (map (\<lambda>n. to_number (dec_val n)) (split_on CHR '','' r)))) \<and>
     ((\<forall>a b. meta = a @ ''+'' @ b \<longrightarrow> b = [] \<or> \<not> list_char (hd b))
       \<longrightarrow> (\<forall>dl. diffLines d = Some dl \<longrightarrow> added dl = None)) \<and>
     ((\<forall>a b. meta = a @ ''-'' @ b \<longrightarrow> b = [] \<or> \<not> list_char (hd b))
       \<longrightarrow> (\<forall>dl. diffLines d = Some dl \<longrightarrow> removed dl = None)) \<and>
     (diffLines d = None \<longleftrightarrow>
        (\<forall>a b. meta = a @ ''+'' @ b \<longrightarrow> b = [] \<or> \<not> list_char (hd b)) \<and>
        (\<forall>a b. meta = a @ ''-'' @ b \<longrightarrow> b = [] \<or> \<not> list_char (hd b)))"
proof -
  have dl: "diffLines d = parse_diff meta" using parse_fields[OF assms] by simp
  have 1: "\<exists>dl. diffLines d = Some dl \<and>
              added dl = Some (map (\<lambda>n. to_number (dec_val n)) (split_on CHR '','' r))"
    if "meta = a @ ''+'' @ r @ b" "number_list r" "b = [] \<or> \<not> list_char (hd b)"
      "\<forall>a1 a2. a = a1 @ ''+'' @ a2 \<longrightarrow> a2 = [] \<or> \<not> list_char (hd a2)" for a r b
  proof -
    have "diffAddMatch meta = Some r" unfolding that(1) using that(2,3,4) by (rule diffAddMatch_first)
    then show ?thesis using dl int_list_numbers[OF that(2)] by (simp add: parse_diff_def)
  qed
  have 2: "\<exists>dl. diffLines d = Some dl \<and>
              removed dl = Some (map (\<lambda>n. to_number (dec_val n)) (split_on CHR '','' r))"
    if "meta = a @ ''-'' @ r @ b" "number_list r" "b = [] \<or> \<not> list_char (hd b)"
      "\<forall>a1 a2. a = a1 @ ''-'' @ a2 \<longrightarrow> a2 = [] \<or> \<not> list_char (hd a2)" for a r b
  proof -
    have "diffRemoveMatch meta = Some r" unfolding that(1) using that(2,3,4)
      by (rule diffRemoveMatch_first)
    then show ?thesis using dl int_list_numbers[OF that(2)] by (simp add: parse_diff_def)
  qed
  have 3: "\<forall>dl. diffLines d = Some dl \<longrightarrow> added dl = None"
    if "\<forall>a b. meta = a @ ''+'' @ b \<longrightarrow> b = [] \<or> \<not> list_char (hd b)"
  proof -
    have "diffAddMatch meta = None" using that by (simp only: diffAddMatch_None_iff)
    then show ?thesis using dl by (auto simp: parse_diff_def split: if_splits)
  qed
  have 4: "\<forall>dl. diffLines d = Some dl \<longrightarrow> removed dl = None"
    if "\<forall>a b. meta = a @ ''-'' @ b \<longrightarrow> b = [] \<or> \<not> list_char (hd b)"
  proof -
    have "diffRemoveMatch meta = None" using that by (simp only: diffRemoveMatch_None_iff)
    then show ?thesis using dl by (auto simp: parse_diff_def split: if_splits)
  qed
  have 5: "diffLines d = None \<longleftrightarrow>
        (\<forall>a b. meta = a @ ''+'' @ b \<longrightarrow> b = [] \<or> \<not> list_char (hd b)) \<and>
        (\<forall>a b. meta = a @ ''-'' @ b \<longrightarrow> b = [] \<or> \<not> list_char (hd b))"
    unfolding dl diffAddMatch_None_iff[symmetric] diffRemoveMatch_None_iff[symmetric]
    by (simp add: parse_diff_def)
  from 1 have g1: "\<forall>a r b. meta = a @ ''+'' @ r @ b \<and> number_list r \<and> (b = [] \<or> \<not> list_char (hd b)) \<and>
         (\<forall>a1 a2. a = a1 @ ''+'' @ a2 \<longrightarrow> a2 = [] \<or> \<not> list_char (hd a2))
       \<longrightarrow> (\<exists>dl. diffLines d = Some dl \<and>
              added dl = Some (map (\<lambda>n. to_number (dec_val n)) (split_on CHR '','' r)))"
    by blast
  from 2 have g2: "\<forall>a r b. meta = a @ ''-'' @ r @ b \<and> number_list r \<and> (b = [] \<or> \<not> list_char (hd b)) \<and>
         (\<forall>a1 a2. a = a1 @ ''-'' @ a2 \<longrightarrow> a2 = [] \<or> \<not> list_char (hd a2))
       \<longrightarrow> (\<exists>dl. diffLines d = Some dl \<and>
              removed dl = Some (map (\<lambda>n. to_number (dec_val n)) (split_on CHR '','' r)))"
    by blast
  from 3 have g3: "(\<forall>a b. meta = a @ ''+'' @ b \<longrightarrow> b = [] \<or> \<not> list_char (hd b))
       \<longrightarrow> (\<forall>dl. diffLines d = Some dl \<longrightarrow> added dl = None)" by (rule impI)
  from 4 have g4: "(\<forall>a b. meta = a @ ''-'' @ b \<longrightarrow> b = [] \<or> \<not> list_char (hd b))
       \<longrightarrow> (\<forall>dl. diffLines d = Some dl \<longrightarrow> removed dl = None)" by (rule impI)
  show ?thesis by (rule conjI[OF g1 conjI[OF g2 conjI[OF g3 conjI[OF g4 5]]]])
qed


theorem diff_marks_first_lists_witness:
  "\<exists>d dl. parseMetaString example_engine (Some ''-2,4 +1,3'') = Inr d \<and> diffLines d = Some dl \<and>
      added dl = Some [Fin 1, Fin 3] \<and> removed dl = Some [Fin 2, Fin 4]"
proof -
  define m where "m = ''-2,4 +1,3''"
  define d where "d = \<lparr>highlightLines = None, lineNumbers = None,
      diffLines = Some \<lparr>added = Some [Fin 1, Fin 3], removed = Some [Fin 2, Fin 4]\<rparr>,
      focusLines = None\<rparr>"
  define a where "a = ''-2,4 ''"
  define r where "r = ''1,3''"
  define r' where "r' = ''2,4''"
  define b' where "b' = '' +1,3''"
  have p: "parseMetaString example_engine (Some m) = Inr d" unfolding m_def d_def by code_simp
  note th = diff_marks_first_lists[OF p]
  have m1: "m = a @ ''+'' @ r @ []" unfolding m_def a_def r_def by simp
  have m2: "m = [] @ ''-'' @ r' @ b'" unfolding m_def r'_def b'_def by simp
  have n1: "number_list r" unfolding r_def by code_simp
  have n2: "number_list r'" unfolding r'_def by code_simp
  have e1: "map (\<lambda>n. to_number (dec_val n)) (split_on CHR '','' r) = [Fin 1, Fin 3]"
    unfolding r_def by code_simp
  have e2: "map (\<lambda>n. to_number (dec_val n)) (split_on CHR '','' r') = [Fin 2, Fin 4]"
    unfolding r'_def by code_simp
  have "CHR ''+'' \<notin> set a" unfolding a_def by simp
  then have f1: "\<forall>a1 a2. a = a1 @ ''+'' @ a2 \<longrightarrow> a2 = [] \<or> \<not> list_char (hd a2)" by auto
  have f2: "\<forall>a1 a2. [] = a1 @ ''-'' @ a2 \<longrightarrow> a2 = [] \<or> \<not> list_char (hd a2)" by simp
  have b2: "b' = [] \<or> \<not> list_char (hd b')" unfolding b'_def by (simp add: list_char_def is_digit_def)
  from th have "\<forall>a r b. m = a @ ''+'' @ r @ b \<and> number_list r \<and> (b = [] \<or> \<not> list_char (hd b)) \<and>
         (\<forall>a1 a2. a = a1 @ ''+'' @ a2 \<longrightarrow> a2 = [] \<or> \<not> list_char (hd a2))
       \<longrightarrow> (\<exists>dl. diffLines d = Some dl \<and>
              added dl = Some (map (\<lambda>n. to_number (dec_val n)) (split_on CHR '','' r)))"
    by (rule conjunct1)
  with m1 n1 f1 obtain dl where dl: "diffLines d = Some dl"
    "added dl = Some (map (\<lambda>n. to_number (dec_val n)) (split_on CHR '','' r))" by blast
  from th have "\<forall>a r b. m = a @ ''-'' @ r @ b \<and> number_list r \<and> (b = [] \<or> \<not> list_char (hd b)) \<and>
         (\<forall>a1 a2. a = a1 @ ''-'' @ a2 \<longrightarrow> a2 = [] \<or> \<not> list_char (hd a2))
       \<longrightarrow> (\<exists>dl. diffLines d = Some dl \<and>
              removed dl = Some (map (\<lambda>n. to_number (dec_val n)) (split_on CHR '','' r)))"
    by (rule conjunct2[THEN conjunct1])
  with m2 n2 f2 b2 obtain dl' where dl': "diffLines d = Some dl'"
    "removed dl' = Some (map (\<lambda>n. to_number (dec_val n)) (split_on CHR '','' r'))" by blast
  from dl dl' have "dl' = dl" by simp
  with dl dl' e1 e2 have "diffLines d = Some dl \<and> added dl = Some [Fin 1, Fin 3] \<and>
      removed dl = Some [Fin 2, Fin 4]" by simp
  with p show ?thesis unfolding m_def by blast
qed

theorem diff_indicator_followed_by_comma_counterexample:
  "parseMetaString example_engine (Some ''+,'') =
     Inr \<lparr>highlightLines = None, lineNumbers = None,
          diffLines = Some \<lparr>added = Some [NaN, NaN], removed = None\<rparr>, focusLines = None\<rparr>"
  by code_simp

section \<open>The parser: brace groups\<close>


lemma not_range_char_braces: "\<not> range_char CHR ''{''" "\<not> range_char CHR ''}''"
  by (simp_all add: range_char_def is_digit_def)

lemma brace_match_iff:
  "match_alts [''{''] range_char ''}'' t = Some r \<longleftrightarrow>
     (\<exists>rest. t = ''{'' @ r @ ''}'' @ rest \<and> r \<noteq> [] \<and> (\<forall>c\<in>set r. range_char c))"
  (is "?L \<longleftrightarrow> ?R")
proof
  assume ?L
  then have "match_here ''{'' range_char ''}'' t = Some r" by (simp only: match_alts_single)
  then obtain rest where rest: "t = ''{'' @ r @ rest" "r \<noteq> []" "\<forall>c\<in>set r. range_char c"
    "prefix ''}'' rest" unfolding match_here_Some_iff by blast
  from rest(4) obtain rest' where "rest = ''}'' @ rest'" by (auto simp: prefix_def)
  with rest show ?R by blast
next
  assume ?R
  then obtain rest where rest: "t = ''{'' @ r @ ''}'' @ rest" "r \<noteq> []" "\<forall>c\<in>set r. range_char c"
    by blast
  have "match_here ''{'' range_char ''}'' t = Some r"
    unfolding match_here_Some_iff
  proof (intro exI conjI)
    show "t = ''{'' @ r @ (''}'' @ rest)" using rest(1) by simp
    show "r \<noteq> []" by (rule rest(2))
    show "\<forall>c\<in>set r. range_char c" by (rule rest(3))
    show "''}'' @ rest = [] \<or> \<not> range_char (hd (''}'' @ rest))"
      by (simp add: not_range_char_braces)
    show "prefix ''}'' (''}'' @ rest)" by simp
  qed
  then show ?L by (simp only: match_alts_single)
qed

lemma highlightMatch_iff:
  "highlightMatch s \<noteq> None \<longleftrightarrow>
     (\<exists>a r b. s = a @ ''{'' @ r @ ''}'' @ b \<and> r \<noteq> [] \<and> (\<forall>c\<in>set r. range_char c))"
  (is "?L \<longleftrightarrow> ?R")
proof
  assume ?L
  then obtain r where "search (match_alts [''{''] range_char ''}'') s = Some r"
    unfolding highlightMatch_def by blast
  from search_Some_split[OF this] obtain a t where
    at: "s = a @ t" "match_alts [''{''] range_char ''}'' t = Some r" by blast
  from at(2) obtain rest where "t = ''{'' @ r @ ''}'' @ rest" "r \<noteq> []" "\<forall>c\<in>set r. range_char c"
    unfolding brace_match_iff by blast
  with at(1) show ?R by blast
next
  assume ?R
  then obtain a r b where s: "s = a @ (''{'' @ r @ ''}'' @ b)" "r \<noteq> []" "\<forall>c\<in>set r. range_char c"
    by auto
  then have "match_alts [''{''] range_char ''}'' (''{'' @ r @ ''}'' @ b) = Some r"
    unfolding brace_match_iff by blast
  then have "match_alts [''{''] range_char ''}'' (''{'' @ r @ ''}'' @ b) \<noteq> None" by simp
  then show ?L unfolding highlightMatch_def s(1) by (rule search_found)
qed

lemma brace_match_inside:
  assumes m: "match_alts [''{''] range_char ''}'' (u @ CHR ''{'' # t) = Some r1" and u: "u \<noteq> []"
  shows "\<exists>v. u = ''{'' @ r1 @ ''}'' @ v"
proof -
  from m obtain rest where eq: "u @ CHR ''{'' # t = ''{'' @ r1 @ ''}'' @ rest"
    and r1: "\<forall>c\<in>set r1. range_char c" unfolding brace_match_iff by blast
  define z where "z = ''{'' @ r1 @ ''}''"
  have eq': "u @ CHR ''{'' # t = z @ rest" using eq by (simp add: z_def)
  have "length z \<le> length u"
  proof (rule ccontr)
    assume "\<not> length z \<le> length u"
    then have lt: "length u < length z" by simp
    have "(u @ CHR ''{'' # t) ! length u = CHR ''{''" by simp
    then have "(z @ rest) ! length u = CHR ''{''" using eq' by simp
    then have zi: "z ! length u = CHR ''{''" using lt by (simp add: nth_append)
    from u have "0 < length u" by simp
    then obtain n where n: "length u = Suc n" by (cases "length u") auto
    with lt have "n < length (r1 @ ''}'')" by (simp add: z_def)
    moreover have "z ! Suc n = (r1 @ ''}'') ! n" by (simp add: z_def)
    ultimately have "z ! Suc n \<in> set (r1 @ ''}'')" by (metis nth_mem)
    with zi n have "CHR ''{'' \<in> set r1 \<or> CHR ''{'' = CHR ''}''" by auto
    with r1 not_range_char_braces(1) show False by auto
  qed
  with eq' obtain v where "u = z @ v" by (auto simp: append_eq_append_conv2 dest: sym)
  then show ?thesis by (simp add: z_def)
qed

lemma highlightMatch_first:
  assumes r: "r \<noteq> []" "\<forall>c\<in>set r. range_char c"
    and before: "\<not> (\<exists>a1 r1 a2. a = a1 @ ''{'' @ r1 @ ''}'' @ a2 \<and> r1 \<noteq> [] \<and> (\<forall>c\<in>set r1. range_char c))"
  shows "highlightMatch (a @ ''{'' @ r @ ''}'' @ b) = Some r"
  unfolding highlightMatch_def
proof (rule search_append_first)
  show "match_alts [''{''] range_char ''}'' (''{'' @ r @ ''}'' @ b) = Some r"
    unfolding brace_match_iff using r by blast
next
  show "\<forall>k<length a. match_alts [''{''] range_char ''}'' (drop k a @ ''{'' @ r @ ''}'' @ b) = None"
  proof (intro allI impI, rule ccontr)
    fix k assume k: "k < length a"
    assume "match_alts [''{''] range_char ''}'' (drop k a @ ''{'' @ r @ ''}'' @ b) \<noteq> None"
    then obtain r1 where m: "match_alts [''{''] range_char ''}'' (drop k a @ CHR ''{'' # (r @ ''}'' @ b)) = Some r1"
      by auto
    from k have ne: "drop k a \<noteq> []" by simp
    from brace_match_inside[OF m ne] obtain v where v: "drop k a = ''{'' @ r1 @ ''}'' @ v" by blast
    from m have r1: "r1 \<noteq> []" "\<forall>c\<in>set r1. range_char c" unfolding brace_match_iff by blast+
    have "a = take k a @ ''{'' @ r1 @ ''}'' @ v" using v by (metis append_take_drop_id)
    with r1 before show False by blast
  qed
qed

lemma selector_chars:
  assumes "selector tok" "c \<in> set tok" shows "range_char c"
proof -
  from assms(2) consider "c = CHR ''-''" | p where "p \<in> set (split_on CHR ''-'' tok)" "c \<in> set p"
    using split_on_chars by blast
  then show ?thesis
  proof cases
    case 1
    then show ?thesis by (simp add: range_char_def)
  next
    case 2
    have "\<forall>p\<in>set (split_on CHR ''-'' tok). digits p"
      using assms(1) by (auto simp: selector_def split: list.splits)
    with 2 have "is_digit c" by (auto simp: digits_def list_all_iff)
    then show ?thesis by (simp add: range_char_def)
  qed
qed

lemma selector_list_chars:
  assumes "selector_list r" shows "r \<noteq> [] \<and> (\<forall>c\<in>set r. range_char c)"
proof
  show "r \<noteq> []" using assms by (auto simp: selector_list_def selector_def digits_def)
  show "\<forall>c\<in>set r. range_char c"
  proof
    fix c assume "c \<in> set r"
    then consider "c = CHR '',''" | p where "p \<in> set (split_on CHR '','' r)" "c \<in> set p"
      using split_on_chars by blast
    then show "range_char c"
    proof cases
      case 1
      then show ?thesis by (simp add: range_char_def)
    next
      case 2
      with assms have "selector p" by (auto simp: selector_list_def list_all_iff)
      with 2 show ?thesis by (auto intro: selector_chars)
    qed
  qed
qed

section \<open>The parser: highlighted lines\<close>


lemma returns_without_focus:
  "focusMatch meta = None \<Longrightarrow> \<exists>d. parseMetaString eng (Some meta) = Inr d"
  by (simp add: parseMetaString_def parse_focus_def no_directives_def)

text \<open>
  C8 (as amended).  In a returned directive set, the highlighted lines are the content of
  the first brace group that holds a selector list, whatever follows it, provided that no
  earlier brace group consists of digits, commas and hyphens only.  A brace group that is
  empty or holds any other character is skipped and the scan goes on to the later groups:
  the field is present whenever some brace group holds a selector list, and it is absent
  whenever no brace group consists of digits, commas and hyphens only.
\<close>

theorem first_selector_group_is_highlighted:
  assumes "parseMetaString eng (Some meta) = Inr d"
  shows
    "(\<forall>a r b. meta = a @ ''{'' @ r @ ''}'' @ b \<and> selector_list r \<and>
         \<not> (\<exists>a1 r1 a2. a = a1 @ ''{'' @ r1 @ ''}'' @ a2 \<and> r1 \<noteq> [] \<and> (\<forall>c\<in>set r1. range_char c))
       \<longrightarrow> highlightLines d = Some r) \<and>
     (\<not> (\<exists>a r b. meta = a @ ''{'' @ r @ ''}'' @ b \<and> r \<noteq> [] \<and> (\<forall>c\<in>set r. range_char c))
       \<longrightarrow> highlightLines d = None) \<and>
     ((\<exists>a r b. meta = a @ ''{'' @ r @ ''}'' @ b \<and> selector_list r)
       \<longrightarrow> highlightLines d \<noteq> None)"
proof -
  have hl: "highlightLines d = highlightMatch meta"
    using parse_fields[OF assms] by (simp add: parse_highlight_def)
  have 1: "highlightLines d = Some r"
    if "meta = a @ ''{'' @ r @ ''}'' @ b" "selector_list r"
      "\<not> (\<exists>a1 r1 a2. a = a1 @ ''{'' @ r1 @ ''}'' @ a2 \<and> r1 \<noteq> [] \<and> (\<forall>c\<in>set r1. range_char c))"
    for a r b
  proof -
    from selector_list_chars[OF that(2)] have "r \<noteq> []" "\<forall>c\<in>set r. range_char c" by blast+
    then have "highlightMatch (a @ ''{'' @ r @ ''}'' @ b) = Some r"
      using that(3) by (rule highlightMatch_first)
    then show ?thesis using hl that(1) by simp
  qed
  have 2: "highlightLines d = None"
    if "\<not> (\<exists>a r b. meta = a @ ''{'' @ r @ ''}'' @ b \<and> r \<noteq> [] \<and> (\<forall>c\<in>set r. range_char c))"
  proof -
    have "highlightMatch meta = None"
    proof (rule ccontr)
      assume "highlightMatch meta \<noteq> None"
      then have "\<exists>a r b. meta = a @ ''{'' @ r @ ''}'' @ b \<and> r \<noteq> [] \<and> (\<forall>c\<in>set r. range_char c)"
        unfolding highlightMatch_iff .
      with that show False by (rule notE)
    qed
    with hl show ?thesis by simp
  qed
  have 3: "highlightLines d \<noteq> None"
    if "\<exists>a r b. meta = a @ ''{'' @ r @ ''}'' @ b \<and> selector_list r"
  proof -
    from that obtain a r b where m: "meta = a @ ''{'' @ r @ ''}'' @ b" and sl: "selector_list r"
      by blast
    from selector_list_chars[OF sl] have "r \<noteq> []" "\<forall>c\<in>set r. range_char c" by blast+
    with m have "\<exists>a r b. meta = a @ ''{'' @ r @ ''}'' @ b \<and> r \<noteq> [] \<and> (\<forall>c\<in>set r. range_char c)"
      by blast
    then have "highlightMatch meta \<noteq> None" unfolding highlightMatch_iff .
    with hl show ?thesis by simp
  qed
  from 1 have g1: "\<forall>a r b. meta = a @ ''{'' @ r @ ''}'' @ b \<and> selector_list r \<and>
         \<not> (\<exists>a1 r1 a2. a = a1 @ ''{'' @ r1 @ ''}'' @ a2 \<and> r1 \<noteq> [] \<and> (\<forall>c\<in>set r1. range_char c))
       \<longrightarrow> highlightLines d = Some r" by blast
  from 2 have g2: "\<not> (\<exists>a r b. meta = a @ ''{'' @ r @ ''}'' @ b \<and> r \<noteq> [] \<and> (\<forall>c\<in>set r. range_char c))
       \<longrightarrow> highlightLines d = None" by (rule impI)
  from 3 have g3: "(\<exists>a r b. meta = a @ ''{'' @ r @ ''}'' @ b \<and> selector_list r)
       \<longrightarrow> highlightLines d \<noteq> None" by (rule impI)
  show ?thesis by (rule conjI[OF g1 conjI[OF g2 g3]])
qed

theorem first_selector_group_is_highlighted_witness:
  "(\<exists>d. parseMetaString example_engine (Some ''{a} {} {1,3-5} {2}'') = Inr d \<and> highlightLines d = Some ''1,3-5'') \<and>
   (\<exists>d. parseMetaString example_engine (Some ''{} {a,b}'') = Inr d \<and> highlightLines d = None) \<and>
   (\<exists>d. parseMetaString example_engine (Some ''{x} {2,4}'') = Inr d \<and> highlightLines d \<noteq> None)"
proof (intro conjI)
  define m where "m = ''{a} {} {1,3-5} {2}''"
  define a where "a = ''{a} {} ''"
  define r where "r = ''1,3-5''"
  define b where "b = '' {2}''"
  have "focusMatch m = None" unfolding m_def by code_simp
  then obtain d where p: "parseMetaString example_engine (Some m) = Inr d"
    using returns_without_focus by blast
  have m1: "m = a @ ''{'' @ r @ ''}'' @ b" unfolding m_def a_def r_def b_def by simp
  have s: "selector_list r" unfolding r_def by code_simp
  have "highlightMatch a = None" unfolding a_def by code_simp
  then have "\<not> highlightMatch a \<noteq> None" by simp
  then have n: "\<not> (\<exists>a1 r1 a2. a = a1 @ ''{'' @ r1 @ ''}'' @ a2 \<and> r1 \<noteq> [] \<and> (\<forall>c\<in>set r1. range_char c))"
    unfolding highlightMatch_iff .
  from first_selector_group_is_highlighted[OF p] have
    "\<forall>a r b. m = a @ ''{'' @ r @ ''}'' @ b \<and> selector_list r \<and>
         \<not> (\<exists>a1 r1 a2. a = a1 @ ''{'' @ r1 @ ''}'' @ a2 \<and> r1 \<noteq> [] \<and> (\<forall>c\<in>set r1. range_char c))
       \<longrightarrow> highlightLines d = Some r" by (rule conjunct1)
  with m1 s n have "highlightLines d = Some r" by blast
  with p show "\<exists>d. parseMetaString example_engine (Some ''{a} {} {1,3-5} {2}'') = Inr d \<and> highlightLines d = Some ''1,3-5''"
    unfolding m_def r_def by blast
next
  define m where "m = ''{} {a,b}''"
  have "focusMatch m = None" unfolding m_def by code_simp
  then obtain d where p: "parseMetaString example_engine (Some m) = Inr d"
    using returns_without_focus by blast
  have "highlightMatch m = None" unfolding m_def by code_simp
  then have "\<not> highlightMatch m \<noteq> None" by simp
  then have n: "\<not> (\<exists>a r b. m = a @ ''{'' @ r @ ''}'' @ b \<and> r \<noteq> [] \<and> (\<forall>c\<in>set r. range_char c))"
    unfolding highlightMatch_iff .
  from first_selector_group_is_highlighted[OF p] have
    "\<not> (\<exists>a r b. m = a @ ''{'' @ r @ ''}'' @ b \<and> r \<noteq> [] \<and> (\<forall>c\<in>set r. range_char c))
       \<longrightarrow> highlightLines d = None" by (rule conjunct2[THEN conjunct1])
  with n have "highlightLines d = None" by blast
  with p show "\<exists>d. parseMetaString example_engine (Some ''{} {a,b}'') = Inr d \<and> highlightLines d = None"
    unfolding m_def by blast
next
  define m where "m = ''{x} {2,4}''"
  define a where "a = ''{x} ''"
  define r where "r = ''2,4''"
  have "focusMatch m = None" unfolding m_def by code_simp
  then obtain d where p: "parseMetaString example_engine (Some m) = Inr d"
    using returns_without_focus by blast
  have m1: "m = a @ ''{'' @ r @ ''}'' @ []" unfolding m_def a_def r_def by simp
  have s: "selector_list r" unfolding r_def by code_simp
  have ex: "\<exists>a r b. m = a @ ''{'' @ r @ ''}'' @ b \<and> selector_list r"
    using m1 s by blast
  from first_selector_group_is_highlighted[OF p] have
    "(\<exists>a r b. m = a @ ''{'' @ r @ ''}'' @ b \<and> selector_list r) \<longrightarrow> highlightLines d \<noteq> None"
    by (rule conjunct2[THEN conjunct2])
  then have "highlightLines d \<noteq> None" using ex by (rule mp)
  with p show "\<exists>d. parseMetaString example_engine (Some ''{x} {2,4}'') = Inr d \<and> highlightLines d \<noteq> None"
    unfolding m_def by blast
qed

theorem invalid_first_brace_group_counterexample:
  "parseMetaString example_engine (Some ''{a} {1}'') =
     Inr \<lparr>highlightLines = Some ''1'', lineNumbers = None, diffLines = None, focusLines = None\<rparr>"
  by code_simp

section \<open>The parser: the start of the numbering\<close>










section \<open>The parser: line numbering\<close>






section \<open>Splices from the highest position downward\<close>


lemma replacement_at_Nil: "replacement_at [] p j = None"
  by (simp add: replacement_at_def)

lemma replacement_at_Cons:
  "replacement_at ((b, r) # rs) p j =
     (if parent b = p \<and> index b = j then Some r else replacement_at rs p j)"
  by (auto simp: replacement_at_def)

lemma replacement_at_None:
  "replacement_at rs p j = None \<longleftrightarrow> (\<forall>(b, r)\<in>set rs. \<not> (parent b = p \<and> index b = j))"
  unfolding replacement_at_def map_of_eq_None_iff by force

lemma rewritten_from_Nil: "rewritten_from rs p n [] = []"
  by (simp add: rewritten_from_def)

lemma rewritten_from_Cons:
  "rewritten_from rs p n (x # xs) =
     (case replacement_at rs p n of Some (Some new) \<Rightarrow> new | _ \<Rightarrow> [x]) @
       rewritten_from rs p (Suc n) xs"
  by (simp add: rewritten_from_def enumerate_simps)

lemma rewritten_from_append:
  "rewritten_from rs p n (xs @ ys) =
     rewritten_from rs p n xs @ rewritten_from rs p (n + length xs) ys"
  by (induction xs arbitrary: n) (simp_all add: rewritten_from_Nil rewritten_from_Cons)

lemma rewritten_from_id:
  "(\<And>j. n \<le> j \<Longrightarrow> j < n + length xs \<Longrightarrow> replacement_at rs p j = None)
     \<Longrightarrow> rewritten_from rs p n xs = xs"
proof (induction xs arbitrary: n)
  case Nil
  then show ?case by (simp add: rewritten_from_Nil)
next
  case (Cons x xs)
  have "replacement_at rs p n = None" by (rule Cons.prems) simp_all
  moreover have "rewritten_from rs p (Suc n) xs = xs"
    by (rule Cons.IH, rule Cons.prems) simp_all
  ultimately show ?case by (simp add: rewritten_from_Cons)
qed

lemma rewritten_from_cong:
  "(\<And>j x. n \<le> j \<Longrightarrow> j < n + length xs \<Longrightarrow>
       (case replacement_at rs p j of Some (Some new) \<Rightarrow> new | _ \<Rightarrow> [x]) =
       (case replacement_at rs' p j of Some (Some new) \<Rightarrow> new | _ \<Rightarrow> [x]))
     \<Longrightarrow> rewritten_from rs p n xs = rewritten_from rs' p n xs"
proof (induction xs arbitrary: n)
  case Nil
  then show ?case by (simp add: rewritten_from_Nil)
next
  case (Cons x xs)
  have 1: "(case replacement_at rs p n of Some (Some new) \<Rightarrow> new | _ \<Rightarrow> [x]) =
       (case replacement_at rs' p n of Some (Some new) \<Rightarrow> new | _ \<Rightarrow> [x])"
    by (rule Cons.prems) simp_all
  have 2: "rewritten_from rs p (Suc n) xs = rewritten_from rs' p (Suc n) xs"
    by (rule Cons.IH, rule Cons.prems) simp_all
  show ?case unfolding rewritten_from_Cons 1 2 ..
qed

text \<open>
  Splices at one parent, taken from the highest position downward, put every replacement
  where the replaced node was.
\<close>

lemma descending_splices:
  assumes "\<forall>br\<in>set rs. parent (fst br) = p"
    and "sorted_wrt (\<lambda>x y. index (fst y) < index (fst x)) rs"
    and "\<forall>br\<in>set rs. index (fst br) < length (st p)"
  shows "foldl apply_outcome st rs p = rewritten_from rs p 0 (st p)"
  using assms
proof (induction rs arbitrary: st)
  case Nil
  have "rewritten_from [] p 0 (st p) = st p"
    by (rule rewritten_from_id) (simp add: replacement_at_Nil)
  then show ?case by simp
next
  case (Cons br rs)
  obtain b r where br: "br = (b, r)" by (cases br)
  define i where "i = index b"
  define xs where "xs = st p"
  have pb: "parent b = p" and i: "i < length xs"
    using Cons.prems(1,3) by (auto simp: br i_def xs_def)
  have below: "\<forall>br'\<in>set rs. index (fst br') < i"
    using Cons.prems(2) by (auto simp: br i_def)
  have none_above: "replacement_at rs p j = None" if "i \<le> j" for j
    unfolding replacement_at_None using below that by fastforce
  have par: "\<forall>br\<in>set rs. parent (fst br) = p" using Cons.prems(1) by simp
  have srt: "sorted_wrt (\<lambda>x y. index (fst y) < index (fst x)) rs" using Cons.prems(2) by simp
  have split: "xs = take i xs @ xs ! i # drop (Suc i) xs" using i by (simp add: id_take_nth_drop)
  have low: "rewritten_from ((b, r) # rs) p 0 (take i xs) = rewritten_from rs p 0 (take i xs)"
    by (rule rewritten_from_cong) (simp add: replacement_at_Cons i_def)
  have high: "rewritten_from ((b, r) # rs) p (Suc i) (drop (Suc i) xs) = drop (Suc i) xs"
    by (rule rewritten_from_id) (simp add: replacement_at_Cons i_def none_above)
  have rhs: "rewritten_from ((b, r) # rs) p 0 xs =
      rewritten_from rs p 0 (take i xs) @
      (case r of Some new \<Rightarrow> new | None \<Rightarrow> [xs ! i]) @ drop (Suc i) xs"
  proof -
    have "rewritten_from ((b, r) # rs) p 0 xs =
        rewritten_from ((b, r) # rs) p 0 (take i xs @ xs ! i # drop (Suc i) xs)"
      using split by simp
    also have "\<dots> = rewritten_from ((b, r) # rs) p 0 (take i xs) @
        rewritten_from ((b, r) # rs) p i (xs ! i # drop (Suc i) xs)"
      using i by (simp add: rewritten_from_append)
    also have "rewritten_from ((b, r) # rs) p i (xs ! i # drop (Suc i) xs) =
        (case r of Some new \<Rightarrow> new | None \<Rightarrow> [xs ! i]) @ drop (Suc i) xs"
      using high pb by (simp add: rewritten_from_Cons replacement_at_Cons i_def split: option.splits)
    finally show ?thesis using low by simp
  qed
  show ?case
  proof (cases r)
    case None
    have "foldl apply_outcome (apply_outcome st br) rs p = foldl apply_outcome st rs p"
      by (simp add: apply_outcome_def br None)
    also have "\<dots> = rewritten_from rs p 0 xs"
      unfolding xs_def
    proof (rule Cons.IH[OF par srt])
      show "\<forall>br\<in>set rs. index (fst br) < length (st p)"
        using below i by (auto simp: xs_def)
    qed
    also have "\<dots> = rewritten_from rs p 0 (take i xs @ xs ! i # drop (Suc i) xs)"
      using split by simp
    also have "\<dots> = rewritten_from rs p 0 (take i xs) @
        rewritten_from rs p i (xs ! i # drop (Suc i) xs)"
      using i by (simp add: rewritten_from_append)
    also have "rewritten_from rs p i (xs ! i # drop (Suc i) xs) = xs ! i # drop (Suc i) xs"
      by (rule rewritten_from_id) (simp add: none_above)
    finally show ?thesis using rhs None by (simp add: br xs_def)
  next
    case (Some new)
    define st' where "st' = apply_outcome st br"
    have st'p: "st' p = take i xs @ new @ drop (Suc i) xs"
      by (simp add: st'_def apply_outcome_def br Some pb splice_def i_def xs_def)
    have "foldl apply_outcome st' rs p = rewritten_from rs p 0 (st' p)"
    proof (rule Cons.IH[OF par srt])
      show "\<forall>br\<in>set rs. index (fst br) < length (st' p)"
        using below i by (auto simp: st'p)
    qed
    also have "\<dots> = rewritten_from rs p 0 (take i xs) @
        rewritten_from rs p i (new @ drop (Suc i) xs)"
      using i by (simp add: st'p rewritten_from_append)
    also have "rewritten_from rs p i (new @ drop (Suc i) xs) = new @ drop (Suc i) xs"
      by (rule rewritten_from_id) (simp add: none_above)
    finally show ?thesis using rhs Some by (simp add: br xs_def st'_def)
  qed
qed

section \<open>The blocks that the second pass records\<close>


lemma under_simps: "parent (under i b) = i # parent b" "index (under i b) = index b"
  "node (under i b) = node b"
  by (simp_all add: under_def)

lemma blocks_from_under: "map (under j) (blocks_from r i cs) = blocks_from (j # r) i cs"
  by (induction cs arbitrary: i) (simp_all add: under_def split: mdast.splits)

lemma filter_under_Cons:
  "filter (\<lambda>b. parent b = j # r) (map (under i) bs) =
     (if i = j then map (under i) (filter (\<lambda>b. parent b = r) bs) else [])"
  by (induction bs) (auto simp: under_simps)

lemma filter_under_Nil: "filter (\<lambda>b. parent b = []) (map (under i) bs) = []"
  by (induction bs) (simp_all add: under_simps)

lemma blocks_from_no_children: "blocks_from p i [] = []"
  by simp

lemma visit_from_at_root:
  "filter (\<lambda>b. parent b = []) (visit_from i cs) = blocks_from [] i cs"
  by (induction cs arbitrary: i) (simp_all add: filter_under_Nil split: mdast.splits)

lemma visit_from_below:
  assumes "\<And>c p. c \<in> set cs \<Longrightarrow>
      filter (\<lambda>b. parent b = p) (visit c) = blocks_from p 0 (children_at c p)"
  shows "filter (\<lambda>b. parent b = j # r) (visit_from i cs) =
     (if i \<le> j \<and> j < i + length cs
      then blocks_from (j # r) 0 (children_at (cs ! (j - i)) r) else [])"
  using assms
proof (induction cs arbitrary: i)
  case Nil
  then show ?case by auto
next
  case (Cons c cs)
  have IH: "filter (\<lambda>b. parent b = j # r) (visit_from (Suc i) cs) =
     (if Suc i \<le> j \<and> j < Suc i + length cs
      then blocks_from (j # r) 0 (children_at (cs ! (j - Suc i)) r) else [])"
    by (rule Cons.IH, rule Cons.prems) simp
  have sub: "filter (\<lambda>b. parent b = r) (visit c) = blocks_from r 0 (children_at c r)"
    by (rule Cons.prems) simp
  have hd: "filter (\<lambda>b. parent b = j # r)
        (case c of Code cd \<Rightarrow> [\<lparr>node = cd, index = i, parent = []\<rparr>] | _ \<Rightarrow> map (under i) (visit c)) =
      (if i = j then blocks_from (j # r) 0 (children_at c r) else [])"
    using sub by (cases c) (simp_all add: filter_under_Cons blocks_from_under)
  have nth: "(c # cs) ! (j - i) = cs ! (j - Suc i)" if "Suc i \<le> j"
  proof -
    have "j - i = Suc (j - Suc i)" using that by simp
    then show ?thesis by simp
  qed
  have step: "filter (\<lambda>b. parent b = j # r) (visit_from i (c # cs)) =
      (if i = j then blocks_from (j # r) 0 (children_at c r) else []) @
      (if Suc i \<le> j \<and> j < Suc i + length cs
       then blocks_from (j # r) 0 (children_at (cs ! (j - Suc i)) r) else [])"
    by (simp add: hd IH)
  show ?case
  proof (cases "i = j")
    case True
    then show ?thesis unfolding step by simp
  next
    case False
    show ?thesis
    proof (cases "Suc i \<le> j")
      case True
      then show ?thesis unfolding step using False nth by simp
    next
      case le: False
      then show ?thesis unfolding step using False by simp
    qed
  qed
qed

text \<open>The blocks that the second pass records for one parent.\<close>

lemma visit_at_parent:
  "filter (\<lambda>b. parent b = p) (visit t) = blocks_from p 0 (children_at t p)"
proof (induction t arbitrary: p)
  case (Parent cs)
  show ?case
  proof (cases p)
    case Nil
    then show ?thesis by (simp add: visit_from_at_root)
  next
    case (Cons j r)
    have "filter (\<lambda>b. parent b = j # r) (visit_from 0 cs) =
     (if 0 \<le> j \<and> j < 0 + length cs
      then blocks_from (j # r) 0 (children_at (cs ! (j - 0)) r) else [])"
      by (rule visit_from_below) (rule Parent.IH)
    then show ?thesis using Cons by simp
  qed
qed simp_all

lemma blocks_from_member:
  "b \<in> set (blocks_from p i cs) \<longleftrightarrow>
     parent b = p \<and> i \<le> index b \<and> index b < i + length cs \<and> cs ! (index b - i) = Code (node b)"
proof (induction cs arbitrary: i)
  case Nil
  then show ?case by simp
next
  case (Cons c cs)
  have nth: "(c # cs) ! (index b - i) = cs ! (index b - Suc i)" if "Suc i \<le> index b"
  proof -
    have "index b - i = Suc (index b - Suc i)" using that by simp
    then show ?thesis by simp
  qed
  have hd: "b \<in> set (case c of Code cd \<Rightarrow> [\<lparr>node = cd, index = i, parent = p\<rparr>] | _ \<Rightarrow> []) \<longleftrightarrow>
      parent b = p \<and> index b = i \<and> c = Code (node b)"
    by (cases c) auto
  show ?case
  proof (cases "index b = i")
    case True
    then show ?thesis using Cons.IH[of "Suc i"] hd by auto
  next
    case False
    show ?thesis
    proof (cases "Suc i \<le> index b")
      case True
      then show ?thesis using Cons.IH[of "Suc i"] hd False nth by auto
    next
      case le: False
      then show ?thesis using Cons.IH[of "Suc i"] hd False by auto
    qed
  qed
qed

lemma blocks_from_ascending: "sorted_wrt (<) (map index (blocks_from p i cs))"
proof (induction cs arbitrary: i)
  case Nil
  then show ?case by simp
next
  case (Cons c cs)
  have "\<forall>b\<in>set (blocks_from p (Suc i) cs). i < index b"
    by (simp add: blocks_from_member)
  then show ?case using Cons.IH[of "Suc i"]
    by (cases c) (simp_all add: sorted_wrt_append)
qed

lemma visit_member:
  "b \<in> set (visit t) \<longleftrightarrow>
     index b < length (children_at t (parent b)) \<and>
     children_at t (parent b) ! index b = Code (node b)"
proof -
  have "b \<in> set (visit t) \<longleftrightarrow> b \<in> set (filter (\<lambda>b'. parent b' = parent b) (visit t))"
    by simp
  also have "\<dots> \<longleftrightarrow> b \<in> set (blocks_from (parent b) 0 (children_at t (parent b)))"
    by (simp only: visit_at_parent)
  finally show ?thesis by (simp add: blocks_from_member)
qed

section \<open>The loop over the blocks\<close>


lemma attempt_cases:
  obtains (parse_raises) e where "parseMetaString (runtime w) (node_meta c) = Inl e"
      "attempt w opts n c = (n, handler e c, None)"
      "fatal_at w opts n c = (e = Fatal)"
  | (render_raises) d e where "parseMetaString (runtime w) (node_meta c) = Inr d"
      "codeToHighlightHtml w (node_value c) (options_for opts (Suc n) c d) = Inl e"
      "attempt w opts n c =
         (Suc n, RenderCalled (node_value c) (options_for opts (Suc n) c d) # handler e c, None)"
      "fatal_at w opts n c = (e = Fatal)"
  | (rendered) d r where "parseMetaString (runtime w) (node_meta c) = Inr d"
      "codeToHighlightHtml w (node_value c) (options_for opts (Suc n) c d) = Inr r"
      "attempt w opts n c =
         (Suc n, [RenderCalled (node_value c) (options_for opts (Suc n) c d)],
          Some [CHtml (html r), CHtml (css r), CHtml (script r)])"
      "\<not> fatal_at w opts n c"
proof (cases "parseMetaString (runtime w) (node_meta c)")
  case (Inl e)
  then show ?thesis using parse_raises by (simp add: attempt_def fatal_at_def)
next
  case (Inr d)
  show ?thesis
  proof (cases "codeToHighlightHtml w (node_value c) (options_for opts (Suc n) c d)")
    case (Inl e)
    then show ?thesis using render_raises Inr by (simp add: attempt_def fatal_at_def Let_def)
  next
    case r: (Inr r)
    then show ?thesis using rendered Inr by (simp add: attempt_def fatal_at_def Let_def)
  qed
qed

lemma process_block_outcome:
  "process_block w opts (s, st) b =
     (s\<lparr>blockCounter := fst (attempt w opts (blockCounter s) (node b)),
        events := events s @ fst (snd (attempt w opts (blockCounter s) (node b)))\<rparr>,
      apply_outcome st (b, snd (snd (attempt w opts (blockCounter s) (node b)))))"
proof -
  obtain n evs repl where a: "attempt w opts (blockCounter s) (node b) = (n, evs, repl)"
    by (cases "attempt w opts (blockCounter s) (node b)")
  show ?thesis
    by (cases repl) (simp_all add: process_block_def apply_outcome_def a)
qed

lemma process_blocks_Nil: "process_blocks w opts [] sst = sst"
  by simp

lemma process_blocks_Cons:
  "\<not> fatal_at w opts (blockCounter s) (node b) \<Longrightarrow>
     process_blocks w opts (b # bs) (s, st) =
       process_blocks w opts bs (process_block w opts (s, st) b)"
  by simp

lemma process_blocks_fatal:
  "fatal_at w opts (blockCounter s) (node b) \<Longrightarrow>
     process_blocks w opts (b # bs) (s, st) = process_block w opts (s, st) b"
  by simp

text \<open>The loop in a call that the process survives.\<close>

lemma process_blocks_store:
  "blocks_survive w opts (blockCounter s) bs \<Longrightarrow>
     snd (process_blocks w opts bs (s, st)) =
       foldl apply_outcome st (outcomes w opts (blockCounter s) bs)"
proof (induction bs arbitrary: s st)
  case Nil
  then show ?case by simp
next
  case (Cons b bs)
  define s1 where "s1 = s\<lparr>blockCounter := fst (attempt w opts (blockCounter s) (node b)),
        events := events s @ fst (snd (attempt w opts (blockCounter s) (node b)))\<rparr>"
  define st1 where "st1 = apply_outcome st (b, snd (snd (attempt w opts (blockCounter s) (node b))))"
  have nf: "\<not> fatal_at w opts (blockCounter s) (node b)" using Cons.prems by simp
  have "blocks_survive w opts (blockCounter s1) bs" using Cons.prems by (simp add: s1_def)
  then have "snd (process_blocks w opts bs (s1, st1)) =
       foldl apply_outcome st1 (outcomes w opts (blockCounter s1) bs)"
    by (rule Cons.IH)
  then show ?case
    unfolding process_blocks_Cons[OF nf] process_block_outcome
    by (simp add: s1_def st1_def)
qed


text \<open>The loop in every call.\<close>

lemma process_blocks_cache:
  "loadedLanguages (fst (process_blocks w opts bs (s, st))) = loadedLanguages s"
proof (induction bs arbitrary: s st)
  case Nil
  then show ?case by simp
next
  case (Cons b bs)
  define s1 where "s1 = s\<lparr>blockCounter := fst (attempt w opts (blockCounter s) (node b)),
        events := events s @ fst (snd (attempt w opts (blockCounter s) (node b)))\<rparr>"
  define st1 where "st1 = apply_outcome st (b, snd (snd (attempt w opts (blockCounter s) (node b))))"
  have step: "process_block w opts (s, st) b = (s1, st1)"
    by (simp add: process_block_outcome s1_def st1_def)
  have IH: "loadedLanguages (fst (process_blocks w opts bs (s1, st1))) = loadedLanguages s1"
    by (rule Cons.IH)
  show ?case
  proof (cases "fatal_at w opts (blockCounter s) (node b)")
    case True
    then show ?thesis by (simp add: step s1_def)
  next
    case False
    then show ?thesis using IH by (simp add: step s1_def)
  qed
qed

lemma process_blocks_flag:
  "languagesLoaded (fst (process_blocks w opts bs (s, st))) = languagesLoaded s"
proof (induction bs arbitrary: s st)
  case Nil
  then show ?case by simp
next
  case (Cons b bs)
  define s1 where "s1 = s\<lparr>blockCounter := fst (attempt w opts (blockCounter s) (node b)),
        events := events s @ fst (snd (attempt w opts (blockCounter s) (node b)))\<rparr>"
  define st1 where "st1 = apply_outcome st (b, snd (snd (attempt w opts (blockCounter s) (node b))))"
  have step: "process_block w opts (s, st) b = (s1, st1)"
    by (simp add: process_block_outcome s1_def st1_def)
  have IH: "languagesLoaded (fst (process_blocks w opts bs (s1, st1))) = languagesLoaded s1"
    by (rule Cons.IH)
  show ?case
  proof (cases "fatal_at w opts (blockCounter s) (node b)")
    case True
    then show ?thesis by (simp add: step s1_def)
  next
    case False
    then show ?thesis using IH by (simp add: step s1_def)
  qed
qed

lemma attempt_phase: "e \<in> set (fst (snd (attempt w opts n c))) \<Longrightarrow> phase e = 2"
  by (cases rule: attempt_cases[of w c opts n]) (auto simp: handler_def split: if_splits)

lemma process_blocks_new_events:
  "\<exists>new. events (fst (process_blocks w opts bs (s, st))) = events s @ new \<and>
     (\<forall>e\<in>set new. phase e = 2)"
proof (induction bs arbitrary: s st)
  case Nil
  then show ?case by simp
next
  case (Cons b bs)
  define s1 where "s1 = s\<lparr>blockCounter := fst (attempt w opts (blockCounter s) (node b)),
        events := events s @ fst (snd (attempt w opts (blockCounter s) (node b)))\<rparr>"
  define st1 where "st1 = apply_outcome st (b, snd (snd (attempt w opts (blockCounter s) (node b))))"
  have step: "process_block w opts (s, st) b = (s1, st1)"
    by (simp add: process_block_outcome s1_def st1_def)
  have ev1: "events s1 = events s @ fst (snd (attempt w opts (blockCounter s) (node b)))"
    by (simp add: s1_def)
  have ph1: "\<forall>e\<in>set (fst (snd (attempt w opts (blockCounter s) (node b)))). phase e = 2"
    using attempt_phase by blast
  show ?case
  proof (cases "fatal_at w opts (blockCounter s) (node b)")
    case True
    then have "events (fst (process_blocks w opts (b # bs) (s, st))) = events s1"
      by (simp add: step)
    then show ?thesis using ev1 ph1 by simp
  next
    case False
    obtain new where new: "events (fst (process_blocks w opts bs (s1, st1))) = events s1 @ new"
      "\<forall>e\<in>set new. phase e = 2"
      using Cons.IH[of s1 st1] by blast
    have "events (fst (process_blocks w opts (b # bs) (s, st))) =
        events s @ (fst (snd (attempt w opts (blockCounter s) (node b))) @ new)"
      using False new(1) ev1 by (simp add: step)
    moreover have "\<forall>e\<in>set (fst (snd (attempt w opts (blockCounter s) (node b))) @ new). phase e = 2"
      using ph1 new(2) by auto
    ultimately show ?thesis by blast
  qed
qed

lemma outcomes_blocks: "map fst (outcomes w opts n bs) = bs"
  by (induction bs arbitrary: n) simp_all

lemma apply_outcome_at:
  "apply_outcome st br p =
     (case snd br of
        Some new \<Rightarrow> if parent (fst br) = p then splice (index (fst br)) new (st p) else st p
      | None \<Rightarrow> st p)"
  by (simp add: apply_outcome_def split: option.splits)

lemma foldl_apply_outcome_cong:
  "st p = st' p \<Longrightarrow> foldl apply_outcome st rs p = foldl apply_outcome st' rs p"
proof (induction rs arbitrary: st st')
  case Nil
  then show ?case by simp
next
  case (Cons br rs)
  have "apply_outcome st br p = apply_outcome st' br p"
    using Cons.prems by (simp add: apply_outcome_at split: option.splits)
  then have "foldl apply_outcome (apply_outcome st br) rs p =
      foldl apply_outcome (apply_outcome st' br) rs p"
    by (rule Cons.IH)
  then show ?case by simp
qed

text \<open>Only the blocks of a parent change the children array of the parent.\<close>

lemma foldl_apply_outcome_local:
  "foldl apply_outcome st rs p =
     foldl apply_outcome st (filter (\<lambda>br. parent (fst br) = p) rs) p"
proof (induction rs arbitrary: st)
  case Nil
  then show ?case by simp
next
  case (Cons br rs)
  show ?case
  proof (cases "parent (fst br) = p")
    case True
    have "foldl apply_outcome st (br # rs) p = foldl apply_outcome (apply_outcome st br) rs p"
      by simp
    also have "\<dots> = foldl apply_outcome (apply_outcome st br)
        (filter (\<lambda>br. parent (fst br) = p) rs) p"
      by (rule Cons.IH)
    finally show ?thesis using True by simp
  next
    case False
    have "apply_outcome st br p = st p"
      using False by (simp add: apply_outcome_at split: option.splits)
    then have "foldl apply_outcome (apply_outcome st br) rs p = foldl apply_outcome st rs p"
      by (rule foldl_apply_outcome_cong)
    also have "\<dots> = foldl apply_outcome st (filter (\<lambda>br. parent (fst br) = p) rs) p"
      by (rule Cons.IH)
    finally show ?thesis using False by simp
  qed
qed

lemma replacement_at_local:
  "replacement_at (filter (\<lambda>br. parent (fst br) = p) rs) p j = replacement_at rs p j"
  by (induction rs) (auto simp: replacement_at_Nil replacement_at_Cons)

lemma distinct_keys_insort:
  "distinct (map k (insort_key k x xs)) \<longleftrightarrow> k x \<notin> k ` set xs \<and> distinct (map k xs)"
  by (induction xs) (auto simp: set_insort_key)

lemma distinct_keys_sort: "distinct (map k (sort_key k xs)) \<longleftrightarrow> distinct (map k xs)"
  by (induction xs) (simp_all add: distinct_keys_insort)

lemma descending_sort:
  fixes bs :: "block list"
  assumes "distinct (map index bs)"
  shows "sorted_wrt (\<lambda>x y. index y < index x) (sort_key (\<lambda>b. - int (index b)) bs)"
proof -
  define k where "k = (\<lambda>b::block. - int (index b))"
  have "distinct (map k bs)"
    using assms by (simp add: k_def distinct_map inj_on_def)
  then have "distinct (map k (sort_key k bs))" by (simp add: distinct_keys_sort)
  moreover have "sorted (map k (sort_key k bs))" by (rule sorted_sort_key)
  ultimately have "sorted_wrt (<) (map k (sort_key k bs))"
    by (simp add: strict_sorted_iff)
  then have "sorted_wrt (\<lambda>x y. k x < k y) (sort_key k bs)" by (simp add: sorted_wrt_map)
  then show ?thesis by (simp add: k_def)
qed

section \<open>The children arrays after the loop\<close>


lemma length_cells: "length (cells p cs) = length cs"
  by (simp add: cells_def)

lemma nth_cells: "i < length cs \<Longrightarrow> cells p cs ! i = cell_of (p @ [i]) (cs ! i)"
  by (simp add: cells_def nth_enumerate_eq)

lemma length_store_of: "length (store_of t p) = length (children_at t p)"
  by (simp add: store_of_def length_cells)

lemma codeBlocks_at_parent:
  "filter (\<lambda>b. parent b = p) (codeBlocks t) =
     sort_key (\<lambda>b. - int (index b)) (blocks_from p 0 (children_at t p))"
  by (simp add: codeBlocks_def filter_sort visit_at_parent)

lemma set_codeBlocks: "set (codeBlocks t) = set (visit t)"
  by (simp add: codeBlocks_def)

lemma length_codeBlocks: "length (codeBlocks t) = length (visit t)"
  by (simp add: codeBlocks_def)

lemma codeBlocks_descending: "sorted (map (\<lambda>b. - int (index b)) (codeBlocks t))"
  unfolding codeBlocks_def by (rule sorted_sort_key)

lemma outcomes_filter:
  "map fst (filter (\<lambda>br. P (fst br)) (outcomes w opts n bs)) = filter P bs"
proof -
  have "map fst (filter (\<lambda>br. P (fst br)) (outcomes w opts n bs)) =
      filter P (map fst (outcomes w opts n bs))"
    by (simp add: filter_map comp_def)
  then show ?thesis by (simp add: outcomes_blocks)
qed

text \<open>
  The children array of every parent after the loop: each block that was converted has
  given way to its three nodes, and nothing else has changed.
\<close>

lemma process_blocks_rewrites:
  assumes "blocks_survive w opts (blockCounter s) (codeBlocks t)"
  shows "snd (process_blocks w opts (codeBlocks t) (s, store_of t)) p =
     rewritten (replacements w opts s t) p (store_of t p)"
proof -
  define rs where "rs = outcomes w opts (blockCounter s) (codeBlocks t)"
  define rs' where "rs' = filter (\<lambda>br. parent (fst br) = p) rs"
  define cs where "cs = children_at t p"
  define bs where "bs = blocks_from p 0 cs"
  have blocks: "map fst rs' = sort_key (\<lambda>b. - int (index b)) bs"
    unfolding rs'_def rs_def bs_def cs_def
    using outcomes_filter[of "\<lambda>b. parent b = p" w opts "blockCounter s" "codeBlocks t"]
    by (simp only: codeBlocks_at_parent)
  have "sorted_wrt (<) (map index bs)" unfolding bs_def by (rule blocks_from_ascending)
  then have "distinct (map index bs)" by (simp add: strict_sorted_iff)
  then have "sorted_wrt (\<lambda>x y. index y < index x) (sort_key (\<lambda>b. - int (index b)) bs)"
    by (rule descending_sort)
  then have "sorted_wrt (\<lambda>x y. index y < index x) (map fst rs')"
    by (simp only: blocks)
  then have srt: "sorted_wrt (\<lambda>x y. index (fst y) < index (fst x)) rs'"
    by (simp add: sorted_wrt_map)
  have par: "\<forall>br\<in>set rs'. parent (fst br) = p" by (simp add: rs'_def)
  have bound: "\<forall>br\<in>set rs'. index (fst br) < length (store_of t p)"
  proof
    fix br assume "br \<in> set rs'"
    then have "fst br \<in> set (map fst rs')" by simp
    then have "fst br \<in> set bs" by (simp only: blocks set_sort)
    then show "index (fst br) < length (store_of t p)"
      by (simp add: bs_def cs_def blocks_from_member length_store_of)
  qed
  have "snd (process_blocks w opts (codeBlocks t) (s, store_of t)) p =
      foldl apply_outcome (store_of t) rs p"
    by (simp add: process_blocks_store[OF assms] rs_def)
  also have "\<dots> = foldl apply_outcome (store_of t) rs' p"
    unfolding rs'_def by (rule foldl_apply_outcome_local)
  also have "\<dots> = rewritten_from rs' p 0 (store_of t p)"
    by (rule descending_splices[of rs' p "store_of t", OF par srt bound])
  also have "\<dots> = rewritten_from rs p 0 (store_of t p)"
    by (rule rewritten_from_cong) (simp add: rs'_def replacement_at_local)
  finally show ?thesis by (simp add: rewritten_def replacements_def rs_def)
qed

lemma run_hook_counter: "blockCounter (snd (run_hook opts s)) = blockCounter s"
  by (simp add: run_hook_def split: option.splits)

lemma load_language_counter: "blockCounter (load_language w s l) = blockCounter s"
  by (simp add: load_language_def)

lemma load_languages_counter: "blockCounter (load_languages w ls s) = blockCounter s"
proof -
  have "blockCounter (foldl (load_language w) s ls) = blockCounter s"
    by (induction ls arbitrary: s) (simp_all add: load_language_counter)
  then show ?thesis by (simp add: load_languages_def)
qed

lemma replacements_counter:
  "blockCounter s = blockCounter s' \<Longrightarrow> replacements w opts s t = replacements w opts s' t"
  by (simp add: replacements_def)

lemma transform_fst:
  "fst (transform w opts s t) =
     (fst (run_hook opts s) \<and> blocks_survive w opts (blockCounter s) (codeBlocks t))"
proof -
  obtain ok s1 where h: "run_hook opts s = (ok, s1)" by (cases "run_hook opts s")
  have c: "blockCounter (load_languages w (detectedLanguages t) s1) = blockCounter s"
    using run_hook_counter[of opts s] by (simp add: load_languages_counter h)
  show ?thesis by (cases ok) (simp_all add: transform_def h c split: prod.splits)
qed

lemma transform_snd:
  assumes "fst (run_hook opts s)"
  shows "snd (transform w opts s t) =
     process_blocks w opts (codeBlocks t)
       (load_languages w (detectedLanguages t) (snd (run_hook opts s)), store_of t)"
proof -
  obtain ok s1 where h: "run_hook opts s = (ok, s1)" by (cases "run_hook opts s")
  have ok: ok using assms by (simp add: h)
  show ?thesis using ok by (simp add: transform_def h split: prod.splits)
qed

lemma transform_rejects:
  assumes "\<not> fst (run_hook opts s)"
  shows "snd (transform w opts s t) = (snd (run_hook opts s), store_of t)"
proof -
  obtain ok s1 where h: "run_hook opts s = (ok, s1)" by (cases "run_hook opts s")
  have "\<not> ok" using assms by (simp add: h)
  then show ?thesis by (simp add: transform_def h)
qed

lemma transform_resolves:
  assumes "fst (transform w opts s t)"
  shows "fst (run_hook opts s)"
    and "transform w opts s t =
      (True, process_blocks w opts (codeBlocks t)
         (load_languages w (detectedLanguages t) (snd (run_hook opts s)), store_of t))"
    and "blocks_survive w opts (blockCounter s) (codeBlocks t)"
proof -
  show h: "fst (run_hook opts s)" using assms by (simp add: transform_fst)
  show "blocks_survive w opts (blockCounter s) (codeBlocks t)"
    using assms by (simp add: transform_fst)
  have "transform w opts s t = (fst (transform w opts s t), snd (transform w opts s t))"
    by simp
  then show "transform w opts s t =
      (True, process_blocks w opts (codeBlocks t)
         (load_languages w (detectedLanguages t) (snd (run_hook opts s)), store_of t))"
    using assms by (simp add: transform_snd[OF h])
qed

lemma transform_rewrites:
  assumes "fst (transform w opts s t)"
  shows "snd (snd (transform w opts s t)) p =
     rewritten (replacements w opts s t) p (store_of t p)"
proof -
  define s2 where "s2 = load_languages w (detectedLanguages t) (snd (run_hook opts s))"
  have c: "blockCounter s2 = blockCounter s"
    by (simp add: s2_def load_languages_counter run_hook_counter)
  have sv: "blocks_survive w opts (blockCounter s2) (codeBlocks t)"
    using transform_resolves(3)[OF assms] by (simp add: c)
  have "snd (snd (transform w opts s t)) p =
      snd (process_blocks w opts (codeBlocks t) (s2, store_of t)) p"
    by (simp add: transform_resolves(2)[OF assms] s2_def)
  also have "\<dots> = rewritten (replacements w opts s2 t) p (store_of t p)"
    using sv by (rule process_blocks_rewrites)
  also have "replacements w opts s2 t = replacements w opts s t"
    using c by (rule replacements_counter)
  finally show ?thesis .
qed

section \<open>What each block is replaced by\<close>


lemma distinct_positions:
  fixes xs :: "block list"
  assumes "\<And>p. distinct (map index (filter (\<lambda>b. parent b = p) xs))"
  shows "distinct (map (\<lambda>b. (parent b, index b)) xs)"
  using assms
proof (induction xs)
  case Nil
  then show ?case by simp
next
  case (Cons x xs)
  have tl: "distinct (map index (filter (\<lambda>b. parent b = p) xs))" for p
    using Cons.prems[of p] by (cases "parent x = p") simp_all
  have "distinct (map (\<lambda>b. (parent b, index b)) xs)"
    by (rule Cons.IH) (rule tl)
  moreover have "(parent x, index x) \<notin> (\<lambda>b. (parent b, index b)) ` set xs"
  proof
    assume "(parent x, index x) \<in> (\<lambda>b. (parent b, index b)) ` set xs"
    then obtain y where y: "y \<in> set xs" "parent y = parent x" "index y = index x" by auto
    have "distinct (map index (filter (\<lambda>b. parent b = parent x) (x # xs)))"
      by (rule Cons.prems)
    then have notin: "index x \<notin> index ` set (filter (\<lambda>b. parent b = parent x) xs)" by simp
    have "y \<in> set (filter (\<lambda>b. parent b = parent x) xs)" using y by simp
    then have "index y \<in> index ` set (filter (\<lambda>b. parent b = parent x) xs)" by (rule imageI)
    then show False using notin y(3) by simp
  qed
  ultimately show ?case by simp
qed

lemma visit_distinct_positions: "distinct (map (\<lambda>b. (parent b, index b)) (visit t))"
proof (rule distinct_positions)
  fix p
  have "sorted_wrt (<) (map index (blocks_from p 0 (children_at t p)))"
    by (rule blocks_from_ascending)
  then show "distinct (map index (filter (\<lambda>b. parent b = p) (visit t)))"
    by (simp add: visit_at_parent strict_sorted_iff)
qed

lemma codeBlocks_distinct_positions:
  "distinct (map (\<lambda>b. (parent b, index b)) (codeBlocks t))"
proof -
  have "distinct (visit t) \<and> inj_on (\<lambda>b. (parent b, index b)) (set (visit t))"
    using visit_distinct_positions[of t] by (simp add: distinct_map)
  then show ?thesis by (simp add: distinct_map codeBlocks_def)
qed

lemma replacement_at_Some_iff:
  assumes "distinct (map (\<lambda>b. (parent b, index b)) (map fst rs))"
  shows "replacement_at rs p i = Some r \<longleftrightarrow>
     (\<exists>b. (b, r) \<in> set rs \<and> parent b = p \<and> index b = i)"
proof -
  define al where "al = map (\<lambda>(b, r). ((parent b, index b), r)) rs"
  have "map fst al = map (\<lambda>b. (parent b, index b)) (map fst rs)"
    by (simp add: al_def comp_def case_prod_beta)
  then have "distinct (map fst al)" using assms by simp
  then have "map_of al (p, i) = Some r \<longleftrightarrow> ((p, i), r) \<in> set al"
    by (rule map_of_eq_Some_iff)
  also have "\<dots> \<longleftrightarrow> (\<exists>b. (b, r) \<in> set rs \<and> parent b = p \<and> index b = i)"
    by (force simp: al_def)
  finally show ?thesis by (simp add: replacement_at_def al_def)
qed

lemma replacements_blocks: "map fst (replacements w opts s t) = codeBlocks t"
  by (simp add: replacements_def outcomes_blocks)

lemma replacement_of_block:
  assumes "(b, r) \<in> set (replacements w opts s t)"
  shows "replacement_at (replacements w opts s t) (parent b) (index b) = Some r"
proof -
  have "distinct (map (\<lambda>b. (parent b, index b)) (map fst (replacements w opts s t)))"
    by (simp only: replacements_blocks codeBlocks_distinct_positions)
  then show ?thesis using assms by (auto simp: replacement_at_Some_iff)
qed

lemma replacement_block_visited:
  assumes "(b, r) \<in> set (replacements w opts s t)"
  shows "b \<in> set (visit t)"
proof -
  have "b \<in> set (map fst (replacements w opts s t))" using assms by force
  then show ?thesis by (simp only: replacements_blocks set_codeBlocks)
qed

lemma block_cell:
  assumes "b \<in> set (visit t)"
  shows "index b < length (store_of t (parent b))"
    and "store_of t (parent b) ! index b = CCode (node b)"
proof -
  have 1: "index b < length (children_at t (parent b))"
    and 2: "children_at t (parent b) ! index b = Code (node b)"
    using assms by (simp_all add: visit_member)
  show "index b < length (store_of t (parent b))" using 1 by (simp add: length_store_of)
  show "store_of t (parent b) ! index b = CCode (node b)"
    using 1 2 by (simp add: store_of_def nth_cells)
qed

lemma outcome_of_attempt:
  "(b, r) \<in> set (outcomes w opts n bs) \<Longrightarrow> \<exists>m. r = snd (snd (attempt w opts m (node b)))"
proof (induction bs arbitrary: n)
  case Nil
  then show ?case by simp
next
  case (Cons a bs)
  then show ?case by (cases "(b, r) = (a, snd (snd (attempt w opts n (node a))))") auto
qed

lemma attempt_bundle:
  assumes "snd (snd (attempt w opts m c)) = Some new"
  shows "\<exists>ro rd. codeToHighlightHtml w (node_value c) ro = Inr rd \<and> lang ro = lang_or_text c \<and>
     new = [CHtml (html rd), CHtml (css rd), CHtml (script rd)]"
proof (cases rule: attempt_cases[of w c opts m])
  case (parse_raises e)
  then show ?thesis using assms by simp
next
  case (render_raises d e)
  then show ?thesis using assms by simp
next
  case (rendered d rd)
  have "lang (options_for opts (Suc m) c d) = lang_or_text c" by (simp add: options_for_def)
  then show ?thesis using rendered assms by auto
qed



lemma rewritten_at:
  assumes "i < length xs"
  shows "rewritten rs p xs =
     rewritten rs p (take i xs) @
     (case replacement_at rs p i of Some (Some new) \<Rightarrow> new | _ \<Rightarrow> [xs ! i]) @
     rewritten_from rs p (Suc i) (drop (Suc i) xs)"
proof -
  have "xs = take i xs @ xs ! i # drop (Suc i) xs" using assms by (simp add: id_take_nth_drop)
  then have "rewritten_from rs p 0 xs =
      rewritten_from rs p 0 (take i xs @ xs ! i # drop (Suc i) xs)" by simp
  also have "\<dots> = rewritten_from rs p 0 (take i xs) @
      rewritten_from rs p i (xs ! i # drop (Suc i) xs)"
    using assms by (simp add: rewritten_from_append)
  finally show ?thesis by (simp add: rewritten_def rewritten_from_Cons)
qed

lemma length_rewritten_from:
  assumes "\<And>j new. replacement_at rs p j = Some (Some new) \<Longrightarrow> length new = 3"
  shows "length (rewritten_from rs p n xs) =
     length xs + 2 * length (filter (converted rs p) [n..<n + length xs])"
proof (induction xs arbitrary: n)
  case Nil
  then show ?case by (simp add: rewritten_from_Nil)
next
  case (Cons x xs)
  have hd: "length (case replacement_at rs p n of Some (Some new) \<Rightarrow> new | _ \<Rightarrow> [x]) =
      (if converted rs p n then 3 else 1)"
    using assms[of n] by (simp add: converted_def split: option.splits)
  have up: "[n..<n + length (x # xs)] = n # [Suc n..<Suc n + length xs]"
    by (subst upt_rec) simp
  show ?case unfolding rewritten_from_Cons up using hd Cons.IH[of "Suc n"] by simp
qed

section \<open>The calls of the hook and of the loader\<close>


lemma calls_since_append: "events s = old @ new \<Longrightarrow> calls_since old s = new"
  by (simp add: calls_since_def)

lemma calls_since_prefix: "prefix old (events s) \<Longrightarrow> events s = old @ calls_since old s"
  by (auto simp: calls_since_def prefix_def)

lemma calls_since_trans:
  assumes "prefix (events a) (events b)" and "prefix (events b) (events c)"
  shows "calls_since (events a) c = calls_since (events a) b @ calls_since (events b) c"
proof -
  have 1: "events c = events b @ calls_since (events b) c"
    using assms(2) by (rule calls_since_prefix)
  have 2: "events b = events a @ calls_since (events a) b"
    using assms(1) by (rule calls_since_prefix)
  have "events c = (events a @ calls_since (events a) b) @ calls_since (events b) c"
    by (subst 2[symmetric]) (rule 1)
  then have "events c = events a @ (calls_since (events a) b @ calls_since (events b) c)"
    by simp
  then show ?thesis by (rule calls_since_append)
qed

lemma calls_since_same: "events s' = events s \<Longrightarrow> calls_since (events s) s' = []"
  by (simp add: calls_since_def)

subsection \<open>The hook\<close>

lemma run_hook_calls:
  "events (snd (run_hook opts s)) =
     events s @ (case loadLanguages opts of
                   None \<Rightarrow> []
                 | Some h \<Rightarrow> if languagesLoaded s then [] else [HookCalled])"
  by (simp add: run_hook_def split: option.splits)

lemma run_hook_prefix: "prefix (events s) (events (snd (run_hook opts s)))"
  by (simp add: run_hook_calls)

lemma run_hook_flag:
  "languagesLoaded (snd (run_hook opts s)) =
     (languagesLoaded s \<or> (case loadLanguages opts of None \<Rightarrow> False | Some h \<Rightarrow> h (events s)))"
  by (simp add: run_hook_def split: option.splits)

lemma run_hook_resolves:
  "fst (run_hook opts s) =
     (case loadLanguages opts of None \<Rightarrow> True | Some h \<Rightarrow> languagesLoaded s \<or> h (events s))"
  by (simp add: run_hook_def split: option.splits)

lemma run_hook_cache: "loadedLanguages (snd (run_hook opts s)) = loadedLanguages s"
  by (simp add: run_hook_def split: option.splits)

subsection \<open>The loading of grammars\<close>

lemma load_language_calls:
  "events (load_language w s l) =
     events s @
       (if l \<in> loadedLanguages s \<or> \<not> bundled w l then []
        else if \<not> import_ok w (events s) l then [GrammarImport l, Warned l]
        else if register_ok w (events s @ [GrammarImport l]) l
          then [GrammarImport l, GrammarRegister l]
          else [GrammarImport l, GrammarRegister l, Warned l])"
  by (simp add: load_language_def)

lemma load_language_prefix: "prefix (events s) (events (load_language w s l))"
  by (simp add: load_language_calls)

lemma load_language_phase:
  "e \<in> set (calls_since (events s) (load_language w s l)) \<Longrightarrow> phase e = 1"
  by (auto simp: calls_since_append[OF load_language_calls] split: if_splits)

lemma load_language_imports:
  "count_list (calls_since (events s) (load_language w s l)) (GrammarImport l') =
     (if l' = l \<and> l \<notin> loadedLanguages s \<and> bundled w l then 1 else 0)"
  by (simp add: calls_since_append[OF load_language_calls])

lemma load_language_cache:
  "loadedLanguages (load_language w s l) =
     (if l \<notin> loadedLanguages s \<and> bundled w l \<and> import_ok w (events s) l \<and>
         register_ok w (events s @ [GrammarImport l]) l
      then insert l (loadedLanguages s) else loadedLanguages s)"
  by (simp add: load_language_def)

lemma load_language_flag: "languagesLoaded (load_language w s l) = languagesLoaded s"
  by (simp add: load_language_def)

lemma load_languages_Nil: "load_languages w [] s = s"
  by (simp add: load_languages_def)

lemma load_languages_Cons:
  "load_languages w (l # ls) s = load_languages w ls (load_language w s l)"
  by (simp add: load_languages_def)

lemma load_languages_prefix: "prefix (events s) (events (load_languages w ls s))"
proof (induction ls arbitrary: s)
  case Nil
  then show ?case by (simp add: load_languages_Nil)
next
  case (Cons l ls)
  have "prefix (events s) (events (load_language w s l))" by (rule load_language_prefix)
  also have "prefix (events (load_language w s l))
      (events (load_languages w ls (load_language w s l)))"
    by (rule Cons.IH)
  finally show ?case by (simp add: load_languages_Cons)
qed

lemma load_languages_split:
  "calls_since (events s) (load_languages w (l # ls) s) =
     calls_since (events s) (load_language w s l) @
     calls_since (events (load_language w s l)) (load_languages w ls (load_language w s l))"
  unfolding load_languages_Cons
  by (rule calls_since_trans) (rule load_language_prefix, rule load_languages_prefix)

lemma load_languages_phase:
  "e \<in> set (calls_since (events s) (load_languages w ls s)) \<Longrightarrow> phase e = 1"
proof (induction ls arbitrary: s)
  case Nil
  then show ?case by (simp add: load_languages_Nil calls_since_def)
next
  case (Cons l ls)
  then show ?case
    unfolding load_languages_split using load_language_phase by auto
qed

lemma load_languages_flag: "languagesLoaded (load_languages w ls s) = languagesLoaded s"
proof (induction ls arbitrary: s)
  case Nil
  then show ?case by (simp add: load_languages_Nil)
next
  case (Cons l ls)
  have "languagesLoaded (load_languages w ls (load_language w s l)) =
      languagesLoaded (load_language w s l)" by (rule Cons.IH)
  then show ?case by (simp add: load_languages_Cons load_language_flag)
qed

lemma load_languages_cache_grows:
  "loadedLanguages s \<subseteq> loadedLanguages (load_languages w ls s)"
proof (induction ls arbitrary: s)
  case Nil
  then show ?case by (simp add: load_languages_Nil)
next
  case (Cons l ls)
  have "loadedLanguages s \<subseteq> loadedLanguages (load_language w s l)"
    by (auto simp: load_language_cache)
  also have "\<dots> \<subseteq> loadedLanguages (load_languages w ls (load_language w s l))"
    by (rule Cons.IH)
  finally show ?case by (simp add: load_languages_Cons)
qed

lemma load_languages_no_import:
  "l \<notin> set ls \<or> l \<in> loadedLanguages s \<or> \<not> bundled w l \<Longrightarrow>
     count_list (calls_since (events s) (load_languages w ls s)) (GrammarImport l) = 0"
proof (induction ls arbitrary: s)
  case Nil
  then show ?case by (simp add: load_languages_Nil calls_since_def)
next
  case (Cons a ls)
  have 1: "count_list (calls_since (events s) (load_language w s a)) (GrammarImport l) = 0"
    using Cons.prems by (auto simp: load_language_imports)
  have "l \<notin> set ls \<or> l \<in> loadedLanguages (load_language w s a) \<or> \<not> bundled w l"
    using Cons.prems by (auto simp: load_language_cache)
  then have 2: "count_list (calls_since (events (load_language w s a))
      (load_languages w ls (load_language w s a))) (GrammarImport l) = 0"
    by (rule Cons.IH)
  show ?case unfolding load_languages_split using 1 2 by simp
qed

text \<open>Each detected language is looked at once, so its grammar is imported at most once.\<close>

lemma load_languages_imports:
  assumes "distinct ls"
  shows "count_list (calls_since (events s) (load_languages w ls s)) (GrammarImport l) =
     (if l \<in> set ls \<and> l \<notin> loadedLanguages s \<and> bundled w l then 1 else 0)"
  using assms
proof (induction ls arbitrary: s)
  case Nil
  then show ?case by (simp add: load_languages_Nil calls_since_def)
next
  case (Cons a ls)
  define s1 where "s1 = load_language w s a"
  have split: "calls_since (events s) (load_languages w (a # ls) s) =
      calls_since (events s) s1 @ calls_since (events s1) (load_languages w ls s1)"
    unfolding s1_def by (rule load_languages_split)
  have hd: "count_list (calls_since (events s) s1) (GrammarImport l) =
      (if l = a \<and> a \<notin> loadedLanguages s \<and> bundled w a then 1 else 0)"
    unfolding s1_def by (rule load_language_imports)
  show ?case
  proof (cases "l = a")
    case True
    then have "l \<notin> set ls" using Cons.prems by simp
    then have "count_list (calls_since (events s1) (load_languages w ls s1)) (GrammarImport l) = 0"
      by (simp add: load_languages_no_import)
    then show ?thesis unfolding split using hd True by simp
  next
    case False
    have "distinct ls" using Cons.prems by simp
    then have "count_list (calls_since (events s1) (load_languages w ls s1)) (GrammarImport l) =
        (if l \<in> set ls \<and> l \<notin> loadedLanguages s1 \<and> bundled w l then 1 else 0)"
      by (rule Cons.IH)
    moreover have "l \<in> loadedLanguages s1 \<longleftrightarrow> l \<in> loadedLanguages s"
      using False by (auto simp: s1_def load_language_cache)
    ultimately show ?thesis unfolding split using hd False by simp
  qed
qed

section \<open>The calls of one transform\<close>

lemma block_events_phase: "e \<in> set (block_events w opts n bs) \<Longrightarrow> phase e = 2"
proof (induction bs arbitrary: n)
  case Nil
  then show ?case by simp
next
  case (Cons b bs)
  then show ?case using attempt_phase by auto
qed

lemma process_blocks_prefix:
  "prefix (events s) (events (fst (process_blocks w opts bs (s, st))))"
  using process_blocks_new_events[of w opts bs s st] by auto

lemma process_blocks_phase:
  assumes "e \<in> set (calls_since (events s) (fst (process_blocks w opts bs (s, st))))"
  shows "phase e = 2"
proof -
  obtain new where new: "events (fst (process_blocks w opts bs (s, st))) = events s @ new"
    "\<forall>e\<in>set new. phase e = 2"
    using process_blocks_new_events[of w opts bs s st] by blast
  have "calls_since (events s) (fst (process_blocks w opts bs (s, st))) = new"
    using new(1) by (rule calls_since_append)
  then show ?thesis using assms new(2) by simp
qed


text \<open>
  The calls of a transform that goes on after the hook: the hook, then the loading of
  the grammars, then the loop over the blocks.
\<close>

lemma transform_calls_after_hook:
  assumes "fst (run_hook opts s)"
  shows "calls_since (events s) (fst (snd (transform w opts s t))) =
     calls_since (events s) (snd (run_hook opts s)) @
     calls_since (events (snd (run_hook opts s)))
       (load_languages w (detectedLanguages t) (snd (run_hook opts s))) @
     calls_since (events (load_languages w (detectedLanguages t) (snd (run_hook opts s))))
       (fst (snd (transform w opts s t)))"
proof -
  define s1 where "s1 = snd (run_hook opts s)"
  define s2 where "s2 = load_languages w (detectedLanguages t) s1"
  define s3 where "s3 = fst (process_blocks w opts (codeBlocks t) (s2, store_of t))"
  have s': "fst (snd (transform w opts s t)) = s3"
    by (simp add: transform_snd[OF assms] s3_def s2_def s1_def)
  have p1: "prefix (events s) (events s1)" unfolding s1_def by (rule run_hook_prefix)
  have p2: "prefix (events s1) (events s2)" unfolding s2_def by (rule load_languages_prefix)
  have p3: "prefix (events s2) (events s3)" unfolding s3_def by (rule process_blocks_prefix)
  have p12: "prefix (events s) (events s2)" using p1 p2 by (rule prefix_order.trans)
  have "calls_since (events s) s3 = calls_since (events s) s2 @ calls_since (events s2) s3"
    using p12 p3 by (rule calls_since_trans)
  also have "calls_since (events s) s2 = calls_since (events s) s1 @ calls_since (events s1) s2"
    using p1 p2 by (rule calls_since_trans)
  finally have "calls_since (events s) s3 =
      calls_since (events s) s1 @ calls_since (events s1) s2 @ calls_since (events s2) s3"
    by simp
  then show ?thesis by (simp add: s' s1_def s2_def)
qed

lemma transform_loop_phase:
  assumes "fst (run_hook opts s)"
    and "e \<in> set (calls_since
       (events (load_languages w (detectedLanguages t) (snd (run_hook opts s))))
       (fst (snd (transform w opts s t))))"
  shows "phase e = 2"
  using assms(2) unfolding transform_snd[OF assms(1)] by (rule process_blocks_phase)


lemma transform_calls_rejected:
  assumes "\<not> fst (run_hook opts s)"
  shows "calls_since (events s) (fst (snd (transform w opts s t))) =
     calls_since (events s) (snd (run_hook opts s))"
  by (simp add: transform_rejects[OF assms])

lemma transform_prefix: "prefix (events s) (events (fst (snd (transform w opts s t))))"
proof (cases "fst (run_hook opts s)")
  case True
  define s1 where "s1 = snd (run_hook opts s)"
  define s2 where "s2 = load_languages w (detectedLanguages t) s1"
  define s3 where "s3 = fst (process_blocks w opts (codeBlocks t) (s2, store_of t))"
  have s': "fst (snd (transform w opts s t)) = s3"
    by (simp add: transform_snd[OF True] s3_def s2_def s1_def)
  have "prefix (events s) (events s1)" unfolding s1_def by (rule run_hook_prefix)
  also have "prefix (events s1) (events s2)" unfolding s2_def by (rule load_languages_prefix)
  also have "prefix (events s2) (events s3)" unfolding s3_def by (rule process_blocks_prefix)
  finally show ?thesis by (simp add: s')
next
  case False
  then show ?thesis by (simp add: transform_rejects run_hook_prefix)
qed

lemma run_hook_calls_since:
  "calls_since (events s) (snd (run_hook opts s)) =
     (case loadLanguages opts of
        None \<Rightarrow> []
      | Some h \<Rightarrow> if languagesLoaded s then [] else [HookCalled])"
  by (rule calls_since_append) (rule run_hook_calls)

lemma transform_cache:
  "loadedLanguages (fst (snd (transform w opts s t))) =
     (if fst (run_hook opts s)
      then loadedLanguages (load_languages w (detectedLanguages t) (snd (run_hook opts s)))
      else loadedLanguages s)"
proof (cases "fst (run_hook opts s)")
  case True
  then show ?thesis
    by (simp add: transform_snd[OF True] process_blocks_cache)
next
  case False
  then show ?thesis by (simp add: transform_rejects run_hook_cache)
qed

lemma transform_flag:
  "languagesLoaded (fst (snd (transform w opts s t))) = languagesLoaded (snd (run_hook opts s))"
proof (cases "fst (run_hook opts s)")
  case True
  then show ?thesis
    by (simp add: transform_snd[OF True] process_blocks_flag load_languages_flag)
next
  case False
  then show ?thesis by (simp add: transform_rejects)
qed

lemma sorted_same_phase: "(\<And>e. e \<in> set es \<Longrightarrow> phase e = k) \<Longrightarrow> sorted (map phase es)"
  by (induction es) auto

lemma transform_phases: "sorted (map phase (calls_since (events s) (fst (snd (transform w opts s t)))))"
proof (cases "fst (run_hook opts s)")
  case True
  define s1 where "s1 = snd (run_hook opts s)"
  define s2 where "s2 = load_languages w (detectedLanguages t) s1"
  define A where "A = calls_since (events s) s1"
  define B where "B = calls_since (events s1) s2"
  define C where "C = calls_since (events s2) (fst (snd (transform w opts s t)))"
  have eq: "calls_since (events s) (fst (snd (transform w opts s t))) = A @ B @ C"
    unfolding A_def B_def C_def s2_def s1_def using True by (rule transform_calls_after_hook)
  have a: "phase e = 0" if "e \<in> set A" for e
    using that by (auto simp: A_def s1_def run_hook_calls_since split: option.splits if_splits)
  have b: "phase e = 1" if "e \<in> set B" for e
    using that unfolding B_def s2_def by (rule load_languages_phase)
  have c: "phase e = 2" if "e \<in> set C" for e
    using True that unfolding C_def s2_def s1_def by (rule transform_loop_phase)
  have "sorted (map phase A)" using a by (rule sorted_same_phase)
  moreover have "sorted (map phase B)" using b by (rule sorted_same_phase)
  moreover have "sorted (map phase C)" using c by (rule sorted_same_phase)
  ultimately show ?thesis unfolding eq using a b c by (auto simp: sorted_append)
next
  case False
  have "phase e = 0" if "e \<in> set (calls_since (events s) (snd (run_hook opts s)))" for e
    using that by (auto simp: run_hook_calls_since split: option.splits if_splits)
  then have "sorted (map phase (calls_since (events s) (snd (run_hook opts s))))"
    by (rule sorted_same_phase)
  then show ?thesis by (simp add: transform_calls_rejected[OF False])
qed

section \<open>Every block is replaced at its own position\<close>


lemma replacement_attempt:
  assumes "(b, r) \<in> set (replacements w opts s t)"
  shows "\<exists>m. r = snd (snd (attempt w opts m (node b)))"
  using assms unfolding replacements_def by (rule outcome_of_attempt)

lemma replacement_bundle:
  assumes "(b, Some new) \<in> set (replacements w opts s t)"
  shows "\<exists>ro rd. codeToHighlightHtml w (node_value (node b)) ro = Inr rd \<and>
     lang ro = lang_or_text (node b) \<and>
     new = [CHtml (html rd), CHtml (css rd), CHtml (script rd)]"
proof -
  obtain m where "Some new = snd (snd (attempt w opts m (node b)))"
    using replacement_attempt[OF assms] by blast
  then have "snd (snd (attempt w opts m (node b))) = Some new" by simp
  then show ?thesis by (rule attempt_bundle)
qed


lemma replacement_length:
  assumes "replacement_at (replacements w opts s t) p j = Some (Some new)"
  shows "length new = 3"
proof -
  have "distinct (map (\<lambda>b. (parent b, index b)) (map fst (replacements w opts s t)))"
    by (simp only: replacements_blocks codeBlocks_distinct_positions)
  then obtain b where "(b, Some new) \<in> set (replacements w opts s t)"
    using assms by (auto simp: replacement_at_Some_iff)
  then have "\<exists>ro rd. codeToHighlightHtml w (node_value (node b)) ro = Inr rd \<and>
     lang ro = lang_or_text (node b) \<and>
     new = [CHtml (html rd), CHtml (css rd), CHtml (script rd)]"
    by (rule replacement_bundle)
  then obtain rd :: rendered
    where "new = [CHtml (html rd), CHtml (css rd), CHtml (script rd)]"
    by blast
  then show ?thesis by simp
qed

text \<open>
  Where the nodes of a position start after the loop: every converted block before it has
  added two nodes.
\<close>

lemma position_before:
  assumes "i \<le> length xs"
  shows "length (rewritten (replacements w opts s t) p (take i xs)) =
     i + 2 * converted_before (replacements w opts s t) p i"
proof -
  have "length (rewritten_from (replacements w opts s t) p 0 (take i xs)) =
      length (take i xs) +
      2 * length (filter (converted (replacements w opts s t) p) [0..<0 + length (take i xs)])"
    by (rule length_rewritten_from) (rule replacement_length)
  then show ?thesis using assms by (simp add: rewritten_def converted_before_def min_def)
qed

lemma block_slot:
  assumes "fst (transform w opts s t)" and "(b, r) \<in> set (replacements w opts s t)"
  shows "snd (snd (transform w opts s t)) (parent b) =
     rewritten (replacements w opts s t) (parent b) (take (index b) (store_of t (parent b))) @
     (case r of Some new \<Rightarrow> new | None \<Rightarrow> [CCode (node b)]) @
     rewritten_from (replacements w opts s t) (parent b) (Suc (index b))
       (drop (Suc (index b)) (store_of t (parent b)))"
proof -
  have v: "b \<in> set (visit t)" using assms(2) by (rule replacement_block_visited)
  have rep: "replacement_at (replacements w opts s t) (parent b) (index b) = Some r"
    using assms(2) by (rule replacement_of_block)
  have "snd (snd (transform w opts s t)) (parent b) =
      rewritten (replacements w opts s t) (parent b) (store_of t (parent b))"
    using assms(1) by (rule transform_rewrites)
  also have "\<dots> =
      rewritten (replacements w opts s t) (parent b) (take (index b) (store_of t (parent b))) @
      (case replacement_at (replacements w opts s t) (parent b) (index b) of
         Some (Some new) \<Rightarrow> new | _ \<Rightarrow> [store_of t (parent b) ! index b]) @
      rewritten_from (replacements w opts s t) (parent b) (Suc (index b))
        (drop (Suc (index b)) (store_of t (parent b)))"
    using block_cell(1)[OF v] by (rule rewritten_at)
  finally show ?thesis by (simp add: rep block_cell(2)[OF v] split: option.splits)
qed


lemma under_node: "node \<circ> under i = node"
  by (rule ext) (simp add: under_def)

lemma visit_from_nodes:
  assumes "\<And>c. c \<in> set cs \<Longrightarrow>
      map node (visit c) = (case c of Code cd \<Rightarrow> [] | _ \<Rightarrow> code_nodes c)"
  shows "map node (visit_from i cs) = concat (map code_nodes cs)"
  using assms
proof (induction cs arbitrary: i)
  case Nil
  then show ?case by simp
next
  case (Cons c cs)
  have IH: "map node (visit_from (Suc i) cs) = concat (map code_nodes cs)"
    by (rule Cons.IH, rule Cons.prems) simp
  have sub: "map node (visit c) = (case c of Code cd \<Rightarrow> [] | _ \<Rightarrow> code_nodes c)"
    by (rule Cons.prems) simp
  have hd: "map node (case c of Code cd \<Rightarrow> [\<lparr>node = cd, index = i, parent = []\<rparr>]
        | _ \<Rightarrow> map (under i) (visit c)) = code_nodes c"
    using sub by (cases c) (simp_all add: under_node)
  show ?case using hd IH by simp
qed

text \<open>The second pass records every code node below the root, in the order of the document.\<close>

lemma visit_nodes:
  "map node (visit t) = (case t of Code cd \<Rightarrow> [] | _ \<Rightarrow> code_nodes t)"
proof (induction t)
  case (Parent cs)
  have "map node (visit_from 0 cs) = concat (map code_nodes cs)"
    by (rule visit_from_nodes) (rule Parent.IH)
  then show ?case by simp
qed simp_all

text \<open>
  C1.  The second pass records every code node that has a parent, at every depth and in
  the order of the document, each with its position and its parent; a transform that goes
  on after the hook and runs to its end records them before it changes anything, and takes
  the recorded blocks in the order of descending index (\<open>replacements\<close> lists them in
  that order, each with what the loop splices in for it).  After the transform the
  children array of every parent is the array it had before, with the code node of each
  converted block replaced, at its own position, by the three nodes of the block (markup,
  style, script, rendered from the block's own source text and language) and with
  nothing else changed.  For a converted block recorded at index \<open>i\<close> the three nodes
  follow the rewritten \<open>i\<close> earlier positions and so start at \<open>i\<close> plus twice the number
  of converted blocks before it under the same parent.
\<close>

theorem blocks_replaced_in_place:
  assumes "fst (transform w opts s t)"
  shows "(\<forall>b. b \<in> set (visit t) \<longleftrightarrow>
        index b < length (children_at t (parent b)) \<and>
        children_at t (parent b) ! index b = Code (node b)) \<and>
     map node (visit t) = (case t of Code cd \<Rightarrow> [] | _ \<Rightarrow> code_nodes t) \<and>
     distinct (map (\<lambda>b. (parent b, index b)) (visit t)) \<and>
     map fst (replacements w opts s t) = codeBlocks t \<and>
     set (codeBlocks t) = set (visit t) \<and>
     length (codeBlocks t) = length (visit t) \<and>
     sorted (map (\<lambda>b. - int (index b)) (codeBlocks t)) \<and>
     (\<forall>p. snd (snd (transform w opts s t)) p =
        rewritten (replacements w opts s t) p (store_of t p)) \<and>
     (\<forall>(b, r)\<in>set (replacements w opts s t).
        index b < length (store_of t (parent b)) \<and>
        store_of t (parent b) ! index b = CCode (node b) \<and>
        replacement_at (replacements w opts s t) (parent b) (index b) = Some r \<and>
        length (rewritten (replacements w opts s t) (parent b)
                  (take (index b) (store_of t (parent b)))) =
          index b + 2 * converted_before (replacements w opts s t) (parent b) (index b) \<and>
        (\<forall>new. r = Some new \<longrightarrow>
           (\<exists>ro rd. codeToHighlightHtml w (node_value (node b)) ro = Inr rd \<and>
              lang ro = lang_or_text (node b) \<and>
              new = [CHtml (html rd), CHtml (css rd), CHtml (script rd)]) \<and>
           snd (snd (transform w opts s t)) (parent b) =
             rewritten (replacements w opts s t) (parent b)
               (take (index b) (store_of t (parent b))) @
             new @
             rewritten_from (replacements w opts s t) (parent b) (Suc (index b))
               (drop (Suc (index b)) (store_of t (parent b)))))"
proof -
  have v1: "\<forall>b. b \<in> set (visit t) \<longleftrightarrow>
        index b < length (children_at t (parent b)) \<and>
        children_at t (parent b) ! index b = Code (node b)"
    by (rule allI) (rule visit_member)
  have v2: "map node (visit t) = (case t of Code cd \<Rightarrow> [] | _ \<Rightarrow> code_nodes t)"
    by (rule visit_nodes)
  have v3: "distinct (map (\<lambda>b. (parent b, index b)) (visit t))"
    by (rule visit_distinct_positions)
  have g1: "map fst (replacements w opts s t) = codeBlocks t" by (rule replacements_blocks)
  have g2: "set (codeBlocks t) = set (visit t)" by (rule set_codeBlocks)
  have g3: "length (codeBlocks t) = length (visit t)" by (rule length_codeBlocks)
  have g4: "sorted (map (\<lambda>b. - int (index b)) (codeBlocks t))" by (rule codeBlocks_descending)
  have g5: "\<forall>p. snd (snd (transform w opts s t)) p =
        rewritten (replacements w opts s t) p (store_of t p)"
    using assms by (simp add: transform_rewrites)
  have g6: "\<forall>(b, r)\<in>set (replacements w opts s t).
        index b < length (store_of t (parent b)) \<and>
        store_of t (parent b) ! index b = CCode (node b) \<and>
        replacement_at (replacements w opts s t) (parent b) (index b) = Some r \<and>
        length (rewritten (replacements w opts s t) (parent b)
                  (take (index b) (store_of t (parent b)))) =
          index b + 2 * converted_before (replacements w opts s t) (parent b) (index b) \<and>
        (\<forall>new. r = Some new \<longrightarrow>
           (\<exists>ro rd. codeToHighlightHtml w (node_value (node b)) ro = Inr rd \<and>
              lang ro = lang_or_text (node b) \<and>
              new = [CHtml (html rd), CHtml (css rd), CHtml (script rd)]) \<and>
           snd (snd (transform w opts s t)) (parent b) =
             rewritten (replacements w opts s t) (parent b)
               (take (index b) (store_of t (parent b))) @
             new @
             rewritten_from (replacements w opts s t) (parent b) (Suc (index b))
               (drop (Suc (index b)) (store_of t (parent b))))"
  proof (rule ballI, rule case_prodI2, intro conjI allI impI)
    fix br b r
    assume br: "br \<in> set (replacements w opts s t)" "br = (b, r)"
    then have mem: "(b, r) \<in> set (replacements w opts s t)" by simp
    have v: "b \<in> set (visit t)" using mem by (rule replacement_block_visited)
    show "index b < length (store_of t (parent b))" using v by (rule block_cell(1))
    then show "length (rewritten (replacements w opts s t) (parent b)
                  (take (index b) (store_of t (parent b)))) =
          index b + 2 * converted_before (replacements w opts s t) (parent b) (index b)"
      by (simp add: position_before)
    show "store_of t (parent b) ! index b = CCode (node b)" using v by (rule block_cell(2))
    show "replacement_at (replacements w opts s t) (parent b) (index b) = Some r"
      using mem by (rule replacement_of_block)
  next
    fix br b r new
    assume br: "br \<in> set (replacements w opts s t)" "br = (b, r)" and r: "r = Some new"
    then have mem: "(b, Some new) \<in> set (replacements w opts s t)" by simp
    show "\<exists>ro rd. codeToHighlightHtml w (node_value (node b)) ro = Inr rd \<and>
              lang ro = lang_or_text (node b) \<and>
              new = [CHtml (html rd), CHtml (css rd), CHtml (script rd)]"
      using mem by (rule replacement_bundle)
    show "snd (snd (transform w opts s t)) (parent b) =
             rewritten (replacements w opts s t) (parent b)
               (take (index b) (store_of t (parent b))) @
             new @
             rewritten_from (replacements w opts s t) (parent b) (Suc (index b))
               (drop (Suc (index b)) (store_of t (parent b)))"
      using block_slot[OF assms mem] by simp
  qed
  show ?thesis
    by (rule conjI[OF v1 conjI[OF v2 conjI[OF v3 conjI[OF g1 conjI[OF g2 conjI[OF g3
          conjI[OF g4 conjI[OF g5 g6]]]]]]]])
qed

theorem blocks_replaced_in_place_witness:
  "fst (transform example_world example_options example_start nested_tree) \<and>
   nested_inner \<in> set (visit nested_tree) \<and>
   map node (visit nested_tree) = code_nodes nested_tree \<and>
   snd (snd (transform example_world example_options example_start nested_tree)) [] =
     [CHtml ''<pre>a'', CHtml ''<style>a'', CHtml ''<script>a'', CRef [1],
      CHtml ''<pre>c'', CHtml ''<style>c'', CHtml ''<script>c''] \<and>
   snd (snd (transform example_world example_options example_start nested_tree)) [1] =
     [COther ''q'', CHtml ''<pre>d'', CHtml ''<style>d'', CHtml ''<script>d'', CRef [1, 2]] \<and>
   snd (snd (transform example_world example_options example_start nested_tree)) [1, 2] =
     [CHtml ''<pre>e'', CHtml ''<style>e'', CHtml ''<script>e'']"
proof -
  have h: "fst (transform example_world example_options example_start nested_tree)"
    by code_simp
  note T = blocks_replaced_in_place[OF h]
  have mem: "\<forall>b. b \<in> set (visit nested_tree) \<longleftrightarrow>
        index b < length (children_at nested_tree (parent b)) \<and>
        children_at nested_tree (parent b) ! index b = Code (node b)"
    by (rule T[THEN conjunct1])
  have c: "index nested_inner < length (children_at nested_tree (parent nested_inner)) \<and>
        children_at nested_tree (parent nested_inner) ! index nested_inner =
          Code (node nested_inner)"
    by code_simp
  have g0: "nested_inner \<in> set (visit nested_tree)"
    using mem[THEN spec, of nested_inner] c by (rule iffD2)
  have "map node (visit nested_tree) =
      (case nested_tree of Code cd \<Rightarrow> [] | _ \<Rightarrow> code_nodes nested_tree)"
    by (rule T[THEN conjunct2, THEN conjunct1])
  also have "(case nested_tree of Code cd \<Rightarrow> [] | _ \<Rightarrow> code_nodes nested_tree) =
      code_nodes nested_tree"
    by (simp add: nested_tree_def)
  finally have g1: "map node (visit nested_tree) = code_nodes nested_tree" .
  have all: "\<forall>p. snd (snd (transform example_world example_options example_start nested_tree)) p =
     rewritten (replacements example_world example_options example_start nested_tree) p
       (store_of nested_tree p)"
    by (rule T[THEN conjunct2, THEN conjunct2, THEN conjunct2, THEN conjunct2, THEN conjunct2,
          THEN conjunct2, THEN conjunct2, THEN conjunct1])
  have r0: "rewritten (replacements example_world example_options example_start nested_tree) []
       (store_of nested_tree []) =
     [CHtml ''<pre>a'', CHtml ''<style>a'', CHtml ''<script>a'', CRef [1],
      CHtml ''<pre>c'', CHtml ''<style>c'', CHtml ''<script>c'']"
    by code_simp
  have r1: "rewritten (replacements example_world example_options example_start nested_tree) [1]
       (store_of nested_tree [1]) =
     [COther ''q'', CHtml ''<pre>d'', CHtml ''<style>d'', CHtml ''<script>d'', CRef [1, 2]]"
    by code_simp
  have r2: "rewritten (replacements example_world example_options example_start nested_tree) [1, 2]
       (store_of nested_tree [1, 2]) =
     [CHtml ''<pre>e'', CHtml ''<style>e'', CHtml ''<script>e'']"
    by code_simp
  have g2: "snd (snd (transform example_world example_options example_start nested_tree)) [] =
     [CHtml ''<pre>a'', CHtml ''<style>a'', CHtml ''<script>a'', CRef [1],
      CHtml ''<pre>c'', CHtml ''<style>c'', CHtml ''<script>c'']"
    using all[THEN spec, of "[]"] r0 by (rule trans)
  have g3: "snd (snd (transform example_world example_options example_start nested_tree)) [1] =
     [COther ''q'', CHtml ''<pre>d'', CHtml ''<style>d'', CHtml ''<script>d'', CRef [1, 2]]"
    using all[THEN spec, of "[1]"] r1 by (rule trans)
  have g4: "snd (snd (transform example_world example_options example_start nested_tree)) [1, 2] =
     [CHtml ''<pre>e'', CHtml ''<style>e'', CHtml ''<script>e'']"
    using all[THEN spec, of "[1, 2]"] r2 by (rule trans)
  show ?thesis by (rule conjI[OF h conjI[OF g0 conjI[OF g1 conjI[OF g2 conjI[OF g3 g4]]]]])
qed

section \<open>A block that fails is left in place\<close>




section \<open>The hook is awaited once by a plugin instance\<close>


subsection \<open>One plugin instance over several documents\<close>

lemma transform_all_Cons:
  "transform_all w opts s (t # ts) =
     (if dies w opts s t then fst (snd (transform w opts s t))
      else transform_all w opts (fst (snd (transform w opts s t))) ts)"
  by simp

lemma transform_all_prefix: "prefix (events s) (events (transform_all w opts s ts))"
proof (induction ts arbitrary: s)
  case Nil
  then show ?case by simp
next
  case (Cons t ts)
  have 1: "prefix (events s) (events (fst (snd (transform w opts s t))))"
    by (rule transform_prefix)
  have 2: "prefix (events (fst (snd (transform w opts s t))))
      (events (transform_all w opts (fst (snd (transform w opts s t))) ts))"
    by (rule Cons.IH)
  have 3: "prefix (events s) (events (transform_all w opts (fst (snd (transform w opts s t))) ts))"
    using 1 2 by (rule prefix_order.trans)
  show ?case unfolding transform_all_Cons using 1 3 by simp
qed

lemma transform_all_split:
  "calls_since (events s) (transform_all w opts s (t # ts)) =
     calls_since (events s) (fst (snd (transform w opts s t))) @
     (if dies w opts s t then []
      else calls_since (events (fst (snd (transform w opts s t))))
             (transform_all w opts (fst (snd (transform w opts s t))) ts))"
proof (cases "dies w opts s t")
  case True
  then show ?thesis unfolding transform_all_Cons by simp
next
  case False
  have "calls_since (events s) (transform_all w opts (fst (snd (transform w opts s t))) ts) =
     calls_since (events s) (fst (snd (transform w opts s t))) @
     calls_since (events (fst (snd (transform w opts s t))))
       (transform_all w opts (fst (snd (transform w opts s t))) ts)"
    by (rule calls_since_trans) (rule transform_prefix, rule transform_all_prefix)
  then show ?thesis unfolding transform_all_Cons using False by simp
qed

lemma count_other_phase:
  assumes "\<And>e. e \<in> set es \<Longrightarrow> phase e = k" and "phase x \<noteq> k"
  shows "count_list es x = 0"
proof -
  have "x \<notin> set es" using assms by auto
  then show ?thesis by simp
qed

lemma transform_hook_calls:
  "count_list (calls_since (events s) (fst (snd (transform w opts s t)))) HookCalled =
     (case loadLanguages opts of None \<Rightarrow> 0 | Some h \<Rightarrow> if languagesLoaded s then 0 else 1)"
proof -
  have a: "count_list (calls_since (events s) (snd (run_hook opts s))) HookCalled =
     (case loadLanguages opts of None \<Rightarrow> 0 | Some h \<Rightarrow> if languagesLoaded s then 0 else 1)"
    by (simp add: run_hook_calls_since split: option.splits)
  show ?thesis
  proof (cases "fst (run_hook opts s)")
    case True
    have b: "count_list (calls_since (events (snd (run_hook opts s)))
        (load_languages w (detectedLanguages t) (snd (run_hook opts s)))) HookCalled = 0"
      by (rule count_other_phase[where k = 1]) (simp_all add: load_languages_phase)
    have c: "count_list (calls_since
        (events (load_languages w (detectedLanguages t) (snd (run_hook opts s))))
        (fst (snd (transform w opts s t)))) HookCalled = 0"
      by (rule count_other_phase[where k = 2]) (simp_all add: transform_loop_phase[OF True])
    show ?thesis unfolding transform_calls_after_hook[OF True] using a b c by simp
  next
    case False
    then show ?thesis using a by (simp add: transform_calls_rejected)
  qed
qed

lemma transform_first_call:
  assumes "loadLanguages opts = Some h" and "\<not> languagesLoaded s"
  shows "take 1 (calls_since (events s) (fst (snd (transform w opts s t)))) = [HookCalled]"
proof -
  have a: "calls_since (events s) (snd (run_hook opts s)) = [HookCalled]"
    using assms by (simp add: run_hook_calls_since)
  show ?thesis
  proof (cases "fst (run_hook opts s)")
    case True
    show ?thesis unfolding transform_calls_after_hook[OF True] a by simp
  next
    case False
    then show ?thesis using a by (simp add: transform_calls_rejected)
  qed
qed

lemma transform_flag_after:
  "languagesLoaded (fst (snd (transform w opts s t))) =
     (languagesLoaded s \<or> (case loadLanguages opts of None \<Rightarrow> False | Some h \<Rightarrow> h (events s)))"
  by (simp add: transform_flag run_hook_flag)

lemma transform_all_hook_done:
  assumes "languagesLoaded s"
  shows "count_list (calls_since (events s) (transform_all w opts s ts)) HookCalled = 0"
  using assms
proof (induction ts arbitrary: s)
  case Nil
  then show ?case by (simp add: calls_since_def)
next
  case (Cons t ts)
  define s1 where "s1 = fst (snd (transform w opts s t))"
  have "languagesLoaded s1" using Cons.prems by (simp add: s1_def transform_flag_after)
  then have "count_list (calls_since (events s1) (transform_all w opts s1 ts)) HookCalled = 0"
    by (rule Cons.IH)
  moreover have "count_list (calls_since (events s) s1) HookCalled = 0"
    using Cons.prems by (simp add: s1_def transform_hook_calls split: option.splits)
  ultimately show ?case unfolding transform_all_split by (simp add: s1_def)
qed

lemma transform_all_hook_once:
  assumes "loadLanguages opts = Some h" and "\<not> languagesLoaded s" and "\<forall>e. h e"
  shows "count_list (calls_since (events s) (transform_all w opts s (t # ts))) HookCalled = 1"
proof -
  define s1 where "s1 = fst (snd (transform w opts s t))"
  have "languagesLoaded s1" using assms by (simp add: s1_def transform_flag_after)
  then have "count_list (calls_since (events s1) (transform_all w opts s1 ts)) HookCalled = 0"
    by (rule transform_all_hook_done)
  moreover have "count_list (calls_since (events s) s1) HookCalled = 1"
    using assms by (simp add: s1_def transform_hook_calls)
  ultimately show ?thesis unfolding transform_all_split by (simp add: s1_def)
qed

lemma transform_goes_on: "(fst (transform w opts s t) \<or> dies w opts s t) = fst (run_hook opts s)"
  by (auto simp: dies_def transform_fst)

text \<open>
  C4, as the code has it.  With a hook supplied, a call of the transform invokes the hook
  exactly when no earlier call of the same plugin instance has awaited it to the end: a
  call made before that invokes it once, as the first thing it does, and goes on only if
  the hook resolves; a call made after that does not invoke it.  A call that goes on
  resolves unless the process ends in its loop.  Over the documents that one instance
  transforms, a hook that resolves is therefore invoked once in all, by the first call,
  however many blocks the documents have.
\<close>

theorem hook_once_per_instance:
  assumes "loadLanguages opts = Some h"
  shows "count_list (calls_since (events s) (fst (snd (transform w opts s t)))) HookCalled =
       (if languagesLoaded s then 0 else 1) \<and>
     (\<not> languagesLoaded s \<longrightarrow>
        take 1 (calls_since (events s) (fst (snd (transform w opts s t)))) = [HookCalled]) \<and>
     languagesLoaded (fst (snd (transform w opts s t))) = (languagesLoaded s \<or> h (events s)) \<and>
     (fst (transform w opts s t) \<or> dies w opts s t) = (languagesLoaded s \<or> h (events s)) \<and>
     (languagesLoaded s \<longrightarrow>
        count_list (calls_since (events s) (transform_all w opts s ts)) HookCalled = 0) \<and>
     (\<not> languagesLoaded s \<and> (\<forall>e. h e) \<and> ts \<noteq> [] \<longrightarrow>
        count_list (calls_since (events s) (transform_all w opts s ts)) HookCalled = 1) \<and>
     fst (transform w opts s t) =
       ((languagesLoaded s \<or> h (events s)) \<and>
        blocks_survive w opts (blockCounter s) (codeBlocks t))"
proof -
  have g1: "count_list (calls_since (events s) (fst (snd (transform w opts s t)))) HookCalled =
       (if languagesLoaded s then 0 else 1)"
    using assms by (simp add: transform_hook_calls)
  have g2: "\<not> languagesLoaded s \<longrightarrow>
        take 1 (calls_since (events s) (fst (snd (transform w opts s t)))) = [HookCalled]"
    using transform_first_call[OF assms] by blast
  have g3: "languagesLoaded (fst (snd (transform w opts s t))) =
      (languagesLoaded s \<or> h (events s))"
    using assms by (simp add: transform_flag_after)
  have g4: "(fst (transform w opts s t) \<or> dies w opts s t) = (languagesLoaded s \<or> h (events s))"
    using assms by (simp add: transform_goes_on run_hook_resolves)
  have g7: "fst (transform w opts s t) =
       ((languagesLoaded s \<or> h (events s)) \<and>
        blocks_survive w opts (blockCounter s) (codeBlocks t))"
    using assms by (simp add: transform_fst run_hook_resolves)
  have g5: "languagesLoaded s \<longrightarrow>
        count_list (calls_since (events s) (transform_all w opts s ts)) HookCalled = 0"
    by (simp add: transform_all_hook_done)
  have g6: "\<not> languagesLoaded s \<and> (\<forall>e. h e) \<and> ts \<noteq> [] \<longrightarrow>
        count_list (calls_since (events s) (transform_all w opts s ts)) HookCalled = 1"
  proof (cases ts)
    case Nil
    then show ?thesis by simp
  next
    case (Cons t' ts')
    show ?thesis unfolding Cons
    proof (intro impI, elim conjE)
      assume "\<not> languagesLoaded s" and "\<forall>e. h e"
      with assms
      show "count_list (calls_since (events s) (transform_all w opts s (t' # ts'))) HookCalled = 1"
        by (rule transform_all_hook_once)
    qed
  qed
  show ?thesis
    by (rule conjI[OF g1 conjI[OF g2 conjI[OF g3 conjI[OF g4 conjI[OF g5 conjI[OF g6 g7]]]]]])
qed

theorem hook_once_per_instance_witness:
  "loadLanguages example_options = Some (\<lambda>h. True) \<and>
   \<not> languagesLoaded example_start \<and>
   take 1 (calls_since (events example_start)
     (fst (snd (transform example_world example_options example_start example_tree)))) =
     [HookCalled] \<and>
   count_list (calls_since (events example_start)
     (transform_all example_world example_options example_start [example_tree, example_tree]))
     HookCalled = 1"
proof -
  have h: "loadLanguages example_options = Some (\<lambda>h. True)"
    by (simp add: example_options_def)
  have n: "\<not> languagesLoaded example_start" by (simp add: example_start_def)
  note T = hook_once_per_instance[OF h, of example_start example_world example_tree
      "[example_tree, example_tree]"]
  have g1: "take 1 (calls_since (events example_start)
     (fst (snd (transform example_world example_options example_start example_tree)))) =
     [HookCalled]"
    using T[THEN conjunct2, THEN conjunct1] n by (rule mp)
  have "\<not> languagesLoaded example_start \<and> (\<forall>e::event list. True) \<and>
      [example_tree, example_tree] \<noteq> []"
    using n by simp
  with T[THEN conjunct2, THEN conjunct2, THEN conjunct2, THEN conjunct2, THEN conjunct2,
      THEN conjunct1]
  have g2: "count_list (calls_since (events example_start)
     (transform_all example_world example_options example_start [example_tree, example_tree]))
     HookCalled = 1"
    by (rule mp)
  show ?thesis by (rule conjI[OF h conjI[OF n conjI[OF g1 g2]]])
qed

theorem second_call_skips_hook_counterexample:
  "loadLanguages example_options \<noteq> None \<and>
   count_list (calls_since
     (events (fst (snd (transform example_world example_options example_start example_tree))))
     (fst (snd (transform example_world example_options
        (fst (snd (transform example_world example_options example_start example_tree)))
        example_tree)))) HookCalled = 0"
proof -
  have g1: "loadLanguages example_options \<noteq> None" by (simp add: example_options_def)
  have g2: "count_list (calls_since
     (events (fst (snd (transform example_world example_options example_start example_tree))))
     (fst (snd (transform example_world example_options
        (fst (snd (transform example_world example_options example_start example_tree)))
        example_tree)))) HookCalled = 0"
    by code_simp
  show ?thesis by (rule conjI[OF g1 g2])
qed

section \<open>The grammars a call imports\<close>


subsection \<open>The detected languages\<close>

lemma add_once_distinct: "distinct xs \<Longrightarrow> distinct (add_once x xs)"
  by (simp add: add_once_def)

lemma set_add_once: "set (add_once x xs) = insert x (set xs)"
  by (auto simp: add_once_def)

lemma detect_distinct: "distinct ls \<Longrightarrow> distinct (detect ls c)"
  by (simp add: detect_def add_once_distinct split: option.splits)

lemma foldl_detect_distinct: "distinct ls \<Longrightarrow> distinct (foldl detect ls cs)"
  by (induction cs arbitrary: ls) (simp_all add: detect_distinct)

lemma detectedLanguages_distinct: "distinct (detectedLanguages t)"
  by (simp add: detectedLanguages_def foldl_detect_distinct)

lemma set_detect:
  "l \<in> set (detect ls c) \<longleftrightarrow>
     l \<in> set ls \<or> (node_lang c = Some l \<and> l \<noteq> [] \<and> l \<noteq> ''text'')"
proof (cases "node_lang c")
  case None
  then show ?thesis by (simp add: detect_def)
next
  case (Some a)
  show ?thesis
  proof (cases "a \<noteq> [] \<and> a \<noteq> ''text''")
    case True
    then show ?thesis using Some by (auto simp: detect_def set_add_once)
  next
    case False
    then show ?thesis using Some by (auto simp: detect_def)
  qed
qed

lemma set_foldl_detect:
  "l \<in> set (foldl detect ls cs) \<longleftrightarrow>
     l \<in> set ls \<or> (\<exists>c\<in>set cs. node_lang c = Some l \<and> l \<noteq> [] \<and> l \<noteq> ''text'')"
proof (induction cs arbitrary: ls)
  case Nil
  then show ?case by simp
next
  case (Cons c cs)
  have "l \<in> set (foldl detect (detect ls c) cs) \<longleftrightarrow>
      l \<in> set (detect ls c) \<or> (\<exists>c\<in>set cs. node_lang c = Some l \<and> l \<noteq> [] \<and> l \<noteq> ''text'')"
    by (rule Cons.IH)
  then show ?case unfolding set_detect by auto
qed

lemma detected_iff:
  "l \<in> set (detectedLanguages t) \<longleftrightarrow>
     (\<exists>c\<in>set (code_nodes t). node_lang c = Some l \<and> l \<noteq> [] \<and> l \<noteq> ''text'')"
  unfolding detectedLanguages_def set_foldl_detect by simp

subsection \<open>The imports of a call and of a plugin instance\<close>

lemma transform_imports:
  "count_list (calls_since (events s) (fst (snd (transform w opts s t)))) (GrammarImport l) =
     (if fst (run_hook opts s) \<and> l \<in> set (detectedLanguages t) \<and>
         l \<notin> loadedLanguages s \<and> bundled w l then 1 else 0)"
proof -
  have hook: "phase e = 0" if "e \<in> set (calls_since (events s) (snd (run_hook opts s)))" for e
    using that by (auto simp: run_hook_calls_since split: option.splits if_splits)
  have a: "count_list (calls_since (events s) (snd (run_hook opts s))) (GrammarImport l) = 0"
    by (rule count_other_phase[where k = 0]) (simp_all add: hook)
  show ?thesis
  proof (cases "fst (run_hook opts s)")
    case True
    have b: "count_list (calls_since (events (snd (run_hook opts s)))
        (load_languages w (detectedLanguages t) (snd (run_hook opts s)))) (GrammarImport l) =
        (if l \<in> set (detectedLanguages t) \<and> l \<notin> loadedLanguages (snd (run_hook opts s)) \<and>
            bundled w l then 1 else 0)"
      using detectedLanguages_distinct by (rule load_languages_imports)
    have c: "count_list (calls_since
        (events (load_languages w (detectedLanguages t) (snd (run_hook opts s))))
        (fst (snd (transform w opts s t)))) (GrammarImport l) = 0"
      by (rule count_other_phase[where k = 2]) (simp_all add: transform_loop_phase[OF True])
    show ?thesis unfolding transform_calls_after_hook[OF True] using a b c True
      by (simp add: run_hook_cache)
  next
    case False
    then show ?thesis using a by (simp add: transform_calls_rejected)
  qed
qed

lemma transform_cache_grows:
  "loadedLanguages s \<subseteq> loadedLanguages (fst (snd (transform w opts s t)))"
proof (cases "fst (run_hook opts s)")
  case True
  have "loadedLanguages (snd (run_hook opts s)) \<subseteq>
      loadedLanguages (load_languages w (detectedLanguages t) (snd (run_hook opts s)))"
    by (rule load_languages_cache_grows)
  then show ?thesis using True by (simp add: transform_cache run_hook_cache)
next
  case False
  then show ?thesis by (simp add: transform_cache)
qed

lemma transform_all_cache_grows:
  "loadedLanguages s \<subseteq> loadedLanguages (transform_all w opts s ts)"
proof (induction ts arbitrary: s)
  case Nil
  then show ?case by simp
next
  case (Cons t ts)
  have 1: "loadedLanguages s \<subseteq> loadedLanguages (fst (snd (transform w opts s t)))"
    by (rule transform_cache_grows)
  have "loadedLanguages (fst (snd (transform w opts s t))) \<subseteq>
      loadedLanguages (transform_all w opts (fst (snd (transform w opts s t))) ts)"
    by (rule Cons.IH)
  with 1 have 2: "loadedLanguages s \<subseteq>
      loadedLanguages (transform_all w opts (fst (snd (transform w opts s t))) ts)"
    by (rule subset_trans)
  show ?case unfolding transform_all_Cons using 1 2 by simp
qed

lemma transform_all_cached:
  assumes "l \<in> loadedLanguages s"
  shows "count_list (calls_since (events s) (transform_all w opts s ts)) (GrammarImport l) = 0"
  using assms
proof (induction ts arbitrary: s)
  case Nil
  then show ?case by (simp add: calls_since_def)
next
  case (Cons t ts)
  define s1 where "s1 = fst (snd (transform w opts s t))"
  have "l \<in> loadedLanguages s1"
    using Cons.prems transform_cache_grows[of s w opts t] by (auto simp: s1_def)
  then have "count_list (calls_since (events s1) (transform_all w opts s1 ts)) (GrammarImport l) = 0"
    by (rule Cons.IH)
  moreover have "count_list (calls_since (events s) s1) (GrammarImport l) = 0"
    using Cons.prems by (simp add: s1_def transform_imports)
  ultimately show ?case unfolding transform_all_split by (simp add: s1_def)
qed

lemma load_languages_loads:
  assumes "\<forall>h l. import_ok w h l \<and> register_ok w h l" and "l \<in> set ls" and "bundled w l"
  shows "l \<in> loadedLanguages (load_languages w ls s)"
  using assms(2)
proof (induction ls arbitrary: s)
  case Nil
  then show ?case by simp
next
  case (Cons a ls)
  show ?case
  proof (cases "l = a")
    case True
    have "l \<in> loadedLanguages (load_language w s a)"
      using assms(1,3) True by (simp add: load_language_cache)
    moreover have "loadedLanguages (load_language w s a) \<subseteq>
        loadedLanguages (load_languages w ls (load_language w s a))"
      by (rule load_languages_cache_grows)
    ultimately show ?thesis by (auto simp: load_languages_Cons)
  next
    case False
    then have "l \<in> set ls" using Cons.prems by simp
    then have "l \<in> loadedLanguages (load_languages w ls (load_language w s a))"
      by (rule Cons.IH)
    then show ?thesis by (simp add: load_languages_Cons)
  qed
qed

text \<open>When no load fails, a grammar is imported at most once by all the calls together.\<close>

lemma transform_all_imports:
  assumes "\<forall>h l. import_ok w h l \<and> register_ok w h l"
  shows "count_list (calls_since (events s) (transform_all w opts s ts)) (GrammarImport l) \<le> 1"
proof (induction ts arbitrary: s)
  case Nil
  then show ?case by (simp add: calls_since_def)
next
  case (Cons t ts)
  define s1 where "s1 = fst (snd (transform w opts s t))"
  have split: "calls_since (events s) (transform_all w opts s (t # ts)) =
      calls_since (events s) s1 @
      (if dies w opts s t then [] else calls_since (events s1) (transform_all w opts s1 ts))"
    unfolding s1_def by (rule transform_all_split)
  show ?case
  proof (cases "fst (run_hook opts s) \<and> l \<in> set (detectedLanguages t) \<and>
         l \<notin> loadedLanguages s \<and> bundled w l")
    case True
    have "l \<in> loadedLanguages (load_languages w (detectedLanguages t) (snd (run_hook opts s)))"
      using assms True by (simp add: load_languages_loads)
    then have "l \<in> loadedLanguages s1" using True by (simp add: s1_def transform_cache)
    then have "count_list (calls_since (events s1) (transform_all w opts s1 ts))
        (GrammarImport l) = 0"
      by (rule transform_all_cached)
    moreover have "count_list (calls_since (events s) s1) (GrammarImport l) = 1"
      using True by (simp add: s1_def transform_imports)
    ultimately show ?thesis unfolding split by simp
  next
    case False
    then have "count_list (calls_since (events s) s1) (GrammarImport l) = 0"
      by (simp add: s1_def transform_imports)
    moreover have "count_list (calls_since (events s1) (transform_all w opts s1 ts))
        (GrammarImport l) \<le> 1"
      by (rule Cons.IH)
    ultimately show ?thesis unfolding split by simp
  qed
qed

subsection \<open>Loads that fail\<close>

lemma load_language_warned:
  "Warned l' \<in> set (calls_since (events s) (load_language w s l)) \<longleftrightarrow>
     l' = l \<and> l \<notin> loadedLanguages s \<and> bundled w l \<and>
     \<not> (import_ok w (events s) l \<and> register_ok w (events s @ [GrammarImport l]) l)"
  by (auto simp: calls_since_append[OF load_language_calls])

lemma load_language_registered:
  "GrammarRegister l' \<in> set (calls_since (events s) (load_language w s l)) \<longleftrightarrow>
     l' = l \<and> l \<notin> loadedLanguages s \<and> bundled w l \<and> import_ok w (events s) l"
  by (auto simp: calls_since_append[OF load_language_calls])

lemma load_language_status:
  "l' \<in> loadedLanguages (load_language w s l) \<longleftrightarrow>
     l' \<in> loadedLanguages s \<or>
     (GrammarRegister l' \<in> set (calls_since (events s) (load_language w s l)) \<and>
      Warned l' \<notin> set (calls_since (events s) (load_language w s l)))"
  unfolding load_language_warned load_language_registered
  by (auto simp: load_language_cache)

lemma load_languages_untouched:
  "l \<notin> set ls \<Longrightarrow>
     (l \<in> loadedLanguages (load_languages w ls s) \<longleftrightarrow> l \<in> loadedLanguages s) \<and>
     Warned l \<notin> set (calls_since (events s) (load_languages w ls s)) \<and>
     GrammarRegister l \<notin> set (calls_since (events s) (load_languages w ls s))"
proof (induction ls arbitrary: s)
  case Nil
  then show ?case by (simp add: load_languages_Nil calls_since_def)
next
  case (Cons a ls)
  define s1 where "s1 = load_language w s a"
  have la: "l \<noteq> a" and ls: "l \<notin> set ls" using Cons.prems by auto
  have IH: "(l \<in> loadedLanguages (load_languages w ls s1) \<longleftrightarrow> l \<in> loadedLanguages s1) \<and>
     Warned l \<notin> set (calls_since (events s1) (load_languages w ls s1)) \<and>
     GrammarRegister l \<notin> set (calls_since (events s1) (load_languages w ls s1))"
    using ls by (rule Cons.IH)
  have c: "l \<in> loadedLanguages s1 \<longleftrightarrow> l \<in> loadedLanguages s"
    using la by (auto simp: s1_def load_language_cache)
  have w1: "Warned l \<notin> set (calls_since (events s) s1)"
    using la by (simp add: s1_def load_language_warned)
  have r1: "GrammarRegister l \<notin> set (calls_since (events s) s1)"
    using la by (simp add: s1_def load_language_registered)
  have split: "calls_since (events s) (load_languages w ls s1) =
      calls_since (events s) s1 @ calls_since (events s1) (load_languages w ls s1)"
    using load_languages_split[of s w a ls] by (simp add: load_languages_Cons s1_def)
  have fin: "load_languages w (a # ls) s = load_languages w ls s1"
    by (simp add: load_languages_Cons s1_def)
  show ?case unfolding fin split using IH c w1 r1 by simp
qed

text \<open>
  A language is in the cache after the loading of a call exactly when it was there before
  or its load went through without a warning.
\<close>

lemma load_languages_status:
  assumes "distinct ls"
  shows "(l \<in> loadedLanguages (load_languages w ls s) \<longleftrightarrow>
        l \<in> loadedLanguages s \<or>
        (GrammarRegister l \<in> set (calls_since (events s) (load_languages w ls s)) \<and>
         Warned l \<notin> set (calls_since (events s) (load_languages w ls s)))) \<and>
     (Warned l \<in> set (calls_since (events s) (load_languages w ls s)) \<longrightarrow>
        l \<in> set ls \<and> l \<notin> loadedLanguages s \<and> bundled w l)"
  using assms
proof (induction ls arbitrary: s)
  case Nil
  then show ?case by (simp add: load_languages_Nil calls_since_def)
next
  case (Cons a ls)
  define s1 where "s1 = load_language w s a"
  define C1 where "C1 = calls_since (events s) s1"
  define C2 where "C2 = calls_since (events s1) (load_languages w ls s1)"
  have fin: "load_languages w (a # ls) s = load_languages w ls s1"
    by (simp add: load_languages_Cons s1_def)
  have split: "calls_since (events s) (load_languages w ls s1) = C1 @ C2"
    using load_languages_split[of s w a ls]
    by (simp add: load_languages_Cons s1_def C1_def C2_def)
  have d: "distinct ls" and nin: "a \<notin> set ls" using Cons.prems by auto
  show ?case
  proof (cases "l = a")
    case True
    have un: "(l \<in> loadedLanguages (load_languages w ls s1) \<longleftrightarrow> l \<in> loadedLanguages s1) \<and>
        Warned l \<notin> set C2 \<and> GrammarRegister l \<notin> set C2"
      unfolding C2_def using nin True by (simp add: load_languages_untouched)
    have st: "l \<in> loadedLanguages s1 \<longleftrightarrow>
        l \<in> loadedLanguages s \<or> (GrammarRegister l \<in> set C1 \<and> Warned l \<notin> set C1)"
      unfolding C1_def s1_def True by (rule load_language_status)
    have wn: "Warned l \<in> set C1 \<longrightarrow> l \<notin> loadedLanguages s \<and> bundled w l"
      unfolding C1_def s1_def True by (simp add: load_language_warned)
    show ?thesis unfolding fin split using un st wn True by auto
  next
    case False
    have IH: "(l \<in> loadedLanguages (load_languages w ls s1) \<longleftrightarrow>
        l \<in> loadedLanguages s1 \<or> (GrammarRegister l \<in> set C2 \<and> Warned l \<notin> set C2)) \<and>
       (Warned l \<in> set C2 \<longrightarrow> l \<in> set ls \<and> l \<notin> loadedLanguages s1 \<and> bundled w l)"
      unfolding C2_def using d by (rule Cons.IH)
    have c: "l \<in> loadedLanguages s1 \<longleftrightarrow> l \<in> loadedLanguages s"
      using False by (auto simp: s1_def load_language_cache)
    have w1: "Warned l \<notin> set C1"
      using False by (simp add: C1_def s1_def load_language_warned)
    have r1: "GrammarRegister l \<notin> set C1"
      using False by (simp add: C1_def s1_def load_language_registered)
    show ?thesis unfolding fin split using IH c w1 r1 by auto
  qed
qed

lemma loading_event_in_call:
  assumes "fst (run_hook opts s)" and "phase x = 1"
  shows "x \<in> set (calls_since (events s) (fst (snd (transform w opts s t)))) \<longleftrightarrow>
     x \<in> set (calls_since (events (snd (run_hook opts s)))
       (load_languages w (detectedLanguages t) (snd (run_hook opts s))))"
proof -
  have a: "x \<notin> set (calls_since (events s) (snd (run_hook opts s)))"
    using assms(2) by (auto simp: run_hook_calls_since split: option.splits if_splits)
  have c: "x \<notin> set (calls_since
       (events (load_languages w (detectedLanguages t) (snd (run_hook opts s))))
       (fst (snd (transform w opts s t))))"
    using transform_loop_phase[OF assms(1), of x w t] assms(2) by auto
  show ?thesis unfolding transform_calls_after_hook[OF assms(1)] using a c by simp
qed

lemma no_loading_event_when_rejected:
  assumes "\<not> fst (run_hook opts s)" and "phase x = 1"
  shows "x \<notin> set (calls_since (events s) (fst (snd (transform w opts s t))))"
  unfolding transform_calls_rejected[OF assms(1)]
  using assms(2) by (auto simp: run_hook_calls_since split: option.splits if_splits)

lemma transform_status:
  "(l \<in> loadedLanguages (fst (snd (transform w opts s t))) \<longleftrightarrow>
      l \<in> loadedLanguages s \<or>
      (GrammarRegister l \<in> set (calls_since (events s) (fst (snd (transform w opts s t)))) \<and>
       Warned l \<notin> set (calls_since (events s) (fst (snd (transform w opts s t)))))) \<and>
   (Warned l \<in> set (calls_since (events s) (fst (snd (transform w opts s t)))) \<longrightarrow>
      fst (run_hook opts s) \<and> l \<in> set (detectedLanguages t) \<and> l \<notin> loadedLanguages s \<and>
      bundled w l)"
proof (cases "fst (run_hook opts s)")
  case True
  define s1 where "s1 = snd (run_hook opts s)"
  have st: "(l \<in> loadedLanguages (load_languages w (detectedLanguages t) s1) \<longleftrightarrow>
        l \<in> loadedLanguages s1 \<or>
        (GrammarRegister l \<in> set (calls_since (events s1)
            (load_languages w (detectedLanguages t) s1)) \<and>
         Warned l \<notin> set (calls_since (events s1) (load_languages w (detectedLanguages t) s1)))) \<and>
     (Warned l \<in> set (calls_since (events s1) (load_languages w (detectedLanguages t) s1)) \<longrightarrow>
        l \<in> set (detectedLanguages t) \<and> l \<notin> loadedLanguages s1 \<and> bundled w l)"
    using detectedLanguages_distinct by (rule load_languages_status)
  have wn: "Warned l \<in> set (calls_since (events s) (fst (snd (transform w opts s t)))) \<longleftrightarrow>
      Warned l \<in> set (calls_since (events s1) (load_languages w (detectedLanguages t) s1))"
    unfolding s1_def using True by (rule loading_event_in_call) simp
  have rg: "GrammarRegister l \<in> set (calls_since (events s) (fst (snd (transform w opts s t)))) \<longleftrightarrow>
      GrammarRegister l \<in> set (calls_since (events s1) (load_languages w (detectedLanguages t) s1))"
    unfolding s1_def using True by (rule loading_event_in_call) simp
  have c: "loadedLanguages (fst (snd (transform w opts s t))) =
      loadedLanguages (load_languages w (detectedLanguages t) s1)"
    using True by (simp add: transform_cache s1_def)
  have c1: "loadedLanguages s1 = loadedLanguages s" by (simp add: s1_def run_hook_cache)
  show ?thesis unfolding wn rg c using st True by (simp add: c1)
next
  case False
  have w: "Warned l \<notin> set (calls_since (events s) (fst (snd (transform w opts s t))))"
    using False by (rule no_loading_event_when_rejected) simp
  have r: "GrammarRegister l \<notin> set (calls_since (events s) (fst (snd (transform w opts s t))))"
    using False by (rule no_loading_event_when_rejected) simp
  show ?thesis using w r False by (simp add: transform_cache)
qed

section \<open>The cache of loaded languages\<close>

text \<open>
  C5, as the code has it.  The cache of loaded languages only grows, over a call and over
  all the calls of a process.  A call that goes on after the hook imports the grammar of a
  language once if a code node of the document names the language (whatever the number of
  such nodes), the language is not in the cache and the bundle has it, and not at all
  otherwise; all the loading of a call comes before the first block of that call is
  rendered.  A language is in the cache after a call exactly when it was there before or
  its load went through in the call; a language in the cache is never imported again, so
  that, when no load fails, a grammar is imported at most once by all the calls of the
  process.  A language whose load fails in a call is not in the cache after the call, and
  the next call that goes on after the hook for a document that names it imports its
  grammar again.
\<close>

theorem grammar_imported_once_per_call:
  "loadedLanguages s \<subseteq> loadedLanguages (fst (snd (transform w opts s t))) \<and>
   loadedLanguages s \<subseteq> loadedLanguages (transform_all w opts s ts) \<and>
   count_list (calls_since (events s) (fst (snd (transform w opts s t)))) (GrammarImport l) =
     (if fst (run_hook opts s) \<and> l \<in> set (detectedLanguages t) \<and>
         l \<notin> loadedLanguages s \<and> bundled w l then 1 else 0) \<and>
   (l \<in> set (detectedLanguages t) \<longleftrightarrow>
      (\<exists>c\<in>set (code_nodes t). node_lang c = Some l \<and> l \<noteq> [] \<and> l \<noteq> ''text'')) \<and>
   sorted (map phase (calls_since (events s) (fst (snd (transform w opts s t))))) \<and>
   (l \<in> loadedLanguages s \<longrightarrow>
      count_list (calls_since (events s) (transform_all w opts s ts)) (GrammarImport l) = 0) \<and>
   ((\<forall>h l. import_ok w h l \<and> register_ok w h l) \<longrightarrow>
      count_list (calls_since (events s) (transform_all w opts s ts)) (GrammarImport l) \<le> 1) \<and>
   (l \<in> loadedLanguages (fst (snd (transform w opts s t))) \<longleftrightarrow>
      l \<in> loadedLanguages s \<or>
      (GrammarRegister l \<in> set (calls_since (events s) (fst (snd (transform w opts s t)))) \<and>
       Warned l \<notin> set (calls_since (events s) (fst (snd (transform w opts s t)))))) \<and>
   (Warned l \<in> set (calls_since (events s) (fst (snd (transform w opts s t)))) \<longrightarrow>
      l \<notin> loadedLanguages (fst (snd (transform w opts s t))) \<and> bundled w l \<and>
      (\<forall>t'. fst (run_hook opts (fst (snd (transform w opts s t)))) \<and>
            l \<in> set (detectedLanguages t') \<longrightarrow>
         count_list (calls_since (events (fst (snd (transform w opts s t))))
           (fst (snd (transform w opts (fst (snd (transform w opts s t))) t')))) (GrammarImport l) = 1)) \<and>
   loadedLanguages (load_language w s l) =
     (if l \<notin> loadedLanguages s \<and> bundled w l \<and> import_ok w (events s) l \<and>
         register_ok w (events s @ [GrammarImport l]) l
      then insert l (loadedLanguages s) else loadedLanguages s) \<and>
   (Warned l \<in> set (calls_since (events s) (load_language w s l)) \<longleftrightarrow>
      l \<notin> loadedLanguages s \<and> bundled w l \<and>
      \<not> (import_ok w (events s) l \<and> register_ok w (events s @ [GrammarImport l]) l))"
proof -
  define s' where "s' = fst (snd (transform w opts s t))"
  have g1: "loadedLanguages s \<subseteq> loadedLanguages s'"
    unfolding s'_def by (rule transform_cache_grows)
  have g2: "loadedLanguages s \<subseteq> loadedLanguages (transform_all w opts s ts)"
    by (rule transform_all_cache_grows)
  have g3: "count_list (calls_since (events s) s') (GrammarImport l) =
     (if fst (run_hook opts s) \<and> l \<in> set (detectedLanguages t) \<and>
         l \<notin> loadedLanguages s \<and> bundled w l then 1 else 0)"
    unfolding s'_def by (rule transform_imports)
  have g4: "l \<in> set (detectedLanguages t) \<longleftrightarrow>
      (\<exists>c\<in>set (code_nodes t). node_lang c = Some l \<and> l \<noteq> [] \<and> l \<noteq> ''text'')"
    by (rule detected_iff)
  have g5: "sorted (map phase (calls_since (events s) s'))"
    unfolding s'_def by (rule transform_phases)
  have g6: "l \<in> loadedLanguages s \<longrightarrow>
      count_list (calls_since (events s) (transform_all w opts s ts)) (GrammarImport l) = 0"
    using transform_all_cached[of l s w opts ts] by (rule impI)
  have g7: "(\<forall>h l. import_ok w h l \<and> register_ok w h l) \<longrightarrow>
      count_list (calls_since (events s) (transform_all w opts s ts)) (GrammarImport l) \<le> 1"
    using transform_all_imports[of w s opts ts l] by (rule impI)
  note st = transform_status[of l w opts s t, folded s'_def]
  have g8: "l \<in> loadedLanguages s' \<longleftrightarrow>
      l \<in> loadedLanguages s \<or>
      (GrammarRegister l \<in> set (calls_since (events s) s') \<and>
       Warned l \<notin> set (calls_since (events s) s'))"
    by (rule st[THEN conjunct1])
  have g9: "Warned l \<in> set (calls_since (events s) s') \<longrightarrow>
      l \<notin> loadedLanguages s' \<and> bundled w l \<and>
      (\<forall>t'. fst (run_hook opts s') \<and> l \<in> set (detectedLanguages t') \<longrightarrow>
         count_list (calls_since (events s') (fst (snd (transform w opts s' t'))))
           (GrammarImport l) = 1)"
  proof
    assume wn: "Warned l \<in> set (calls_since (events s) s')"
    have f: "l \<notin> loadedLanguages s" "bundled w l"
      using st[THEN conjunct2] wn by simp_all
    have n: "l \<notin> loadedLanguages s'" using g8 wn f(1) by simp
    have "\<forall>t'. fst (run_hook opts s') \<and> l \<in> set (detectedLanguages t') \<longrightarrow>
         count_list (calls_since (events s') (fst (snd (transform w opts s' t'))))
           (GrammarImport l) = 1"
      using n f(2) by (simp add: transform_imports)
    then show "l \<notin> loadedLanguages s' \<and> bundled w l \<and>
      (\<forall>t'. fst (run_hook opts s') \<and> l \<in> set (detectedLanguages t') \<longrightarrow>
         count_list (calls_since (events s') (fst (snd (transform w opts s' t'))))
           (GrammarImport l) = 1)"
      using n f(2) by simp
  qed
  have g10: "loadedLanguages (load_language w s l) =
     (if l \<notin> loadedLanguages s \<and> bundled w l \<and> import_ok w (events s) l \<and>
         register_ok w (events s @ [GrammarImport l]) l
      then insert l (loadedLanguages s) else loadedLanguages s)"
    by (rule load_language_cache)
  have g11: "Warned l \<in> set (calls_since (events s) (load_language w s l)) \<longleftrightarrow>
      l \<notin> loadedLanguages s \<and> bundled w l \<and>
      \<not> (import_ok w (events s) l \<and> register_ok w (events s @ [GrammarImport l]) l)"
    by (simp add: load_language_warned)
  show ?thesis
    unfolding s'_def[symmetric]
    by (rule conjI[OF g1 conjI[OF g2 conjI[OF g3 conjI[OF g4 conjI[OF g5 conjI[OF g6
          conjI[OF g7 conjI[OF g8 conjI[OF g9 conjI[OF g10 g11]]]]]]]]]])
qed

theorem grammar_imported_once_per_call_witness:
  "''js'' \<in> loadedLanguages
      (fst (snd (transform example_world example_options example_start example_tree))) \<and>
   count_list (calls_since
      (events (fst (snd (transform example_world example_options example_start example_tree))))
      (transform_all example_world example_options
         (fst (snd (transform example_world example_options example_start example_tree)))
         [example_tree, example_tree])) (GrammarImport ''js'') = 0 \<and>
   count_list (calls_since (events example_start)
      (transform_all reliable_world example_options example_start [example_tree, example_tree]))
      (GrammarImport ''py'') \<le> 1 \<and>
   Warned ''py'' \<in> set (calls_since (events example_start)
      (fst (snd (transform example_world example_options example_start example_tree)))) \<and>
   ''py'' \<notin> loadedLanguages
      (fst (snd (transform example_world example_options example_start example_tree))) \<and>
   count_list (calls_since
      (events (fst (snd (transform example_world example_options example_start example_tree))))
      (fst (snd (transform example_world example_options
         (fst (snd (transform example_world example_options example_start example_tree)))
         example_tree)))) (GrammarImport ''py'') = 1"
proof -
  define s1 where
    "s1 = fst (snd (transform example_world example_options example_start example_tree))"
  have h1: "''js'' \<in> loadedLanguages s1" unfolding s1_def by code_simp
  have h2: "\<forall>h l. import_ok reliable_world h l \<and> register_ok reliable_world h l"
    by (simp add: reliable_world_def example_world_def)
  have g1: "count_list (calls_since (events s1)
      (transform_all example_world example_options s1 [example_tree, example_tree]))
      (GrammarImport ''js'') = 0"
    using grammar_imported_once_per_call[of s1
        example_world example_options example_tree "[example_tree, example_tree]" "''js''",
        THEN conjunct2, THEN conjunct2, THEN conjunct2, THEN conjunct2, THEN conjunct2,
        THEN conjunct1] h1
    by (rule mp)
  have g2: "count_list (calls_since (events example_start)
      (transform_all reliable_world example_options example_start [example_tree, example_tree]))
      (GrammarImport ''py'') \<le> 1"
    using grammar_imported_once_per_call[of example_start reliable_world example_options
        example_tree "[example_tree, example_tree]" "''py''",
        THEN conjunct2, THEN conjunct2, THEN conjunct2, THEN conjunct2, THEN conjunct2,
        THEN conjunct2, THEN conjunct1] h2
    by (rule mp)
  have h3: "Warned ''py'' \<in> set (calls_since (events example_start) s1)"
    unfolding s1_def by code_simp
  have fail: "''py'' \<notin> loadedLanguages s1 \<and> bundled example_world ''py'' \<and>
      (\<forall>t'. fst (run_hook example_options s1) \<and> ''py'' \<in> set (detectedLanguages t') \<longrightarrow>
         count_list (calls_since (events s1)
           (fst (snd (transform example_world example_options s1 t')))) (GrammarImport ''py'') = 1)"
    using grammar_imported_once_per_call[of example_start example_world example_options
        example_tree "[]" "''py''",
        THEN conjunct2, THEN conjunct2, THEN conjunct2, THEN conjunct2, THEN conjunct2,
        THEN conjunct2, THEN conjunct2, THEN conjunct2, THEN conjunct1, folded s1_def] h3
    by (rule mp)
  have g3: "''py'' \<notin> loadedLanguages s1" by (rule fail[THEN conjunct1])
  have h4: "fst (run_hook example_options s1)" unfolding s1_def by code_simp
  have h5: "''py'' \<in> set (detectedLanguages example_tree)" by code_simp
  have "fst (run_hook example_options s1) \<and> ''py'' \<in> set (detectedLanguages example_tree)"
    using h4 h5 by (rule conjI)
  with fail[THEN conjunct2, THEN conjunct2, THEN spec, of example_tree]
  have g4: "count_list (calls_since (events s1)
      (fst (snd (transform example_world example_options s1 example_tree))))
      (GrammarImport ''py'') = 1"
    by (rule mp)
  show ?thesis
    using conjI[OF h1 conjI[OF g1 conjI[OF g2 conjI[OF h3 conjI[OF g3 g4]]]]]
    unfolding s1_def .
qed

theorem failed_load_is_repeated_counterexample:
  "bundled example_world ''py'' \<and>
   count_list (calls_since (events example_start)
     (transform_all example_world example_options example_start [example_tree, example_tree]))
     (GrammarImport ''py'') = 2"
proof -
  have g1: "bundled example_world ''py''" by code_simp
  have g2: "count_list (calls_since (events example_start)
     (transform_all example_world example_options example_start [example_tree, example_tree]))
     (GrammarImport ''py'') = 2"
    by code_simp
  show ?thesis by (rule conjI[OF g1 g2])
qed

end
